theory Spec2Isabelle
  imports Main "HOL-Library.Multiset"
begin

section \<open>The thread pool of ThreadPool.h as an interleaving state machine\<close>

text \<open>
  The class \<^verbatim>\<open>ThreadPool\<close> has five fields: the vector \<^verbatim>\<open>workers\<close>, the queue
  \<^verbatim>\<open>tasks\<close>, the mutex \<^verbatim>\<open>queue_mutex\<close>, the condition variable \<^verbatim>\<open>condition\<close>
  and the flag \<^verbatim>\<open>stop\<close>. Three kinds of threads run its code: the worker lambda of the
  constructor (lines 77-109), any number of callers of \<^verbatim>\<open>enqueue\<close> (lines 125-158) and the
  thread that runs the destructor (lines 169-183). Each thread is modelled by a program
  counter that names the statement it executes next; one step of one thread is atomic,
  and an execution is a schedule: the list of the threads' steps in the order they happen.
  A step that cannot be taken where the schedule asks for it (a lock on a held mutex, a
  join on a running thread) leaves the state as it is.
\<close>

subsection \<open>Callables, packaged tasks and futures\<close>

text \<open>
  The bound call \<^verbatim>\<open>std::bind(f, args...)\<close> is modelled by what calling it does: it returns a
  value or throws. \<^verbatim>\<open>std::packaged_task\<close> and \<^verbatim>\<open>std::future\<close> belong to the C++ standard
  library; their shared state is pending until the packaged task has been invoked, and then
  holds the value returned or the exception thrown by the callable.
\<close>

datatype 'a callable = Returns 'a | Throws string

datatype 'a shared_state = Pending | Ready 'a | Failed string

datatype error = TaskFailure string | Runtime_error string | InvalidArgument

text \<open>\<^verbatim>\<open>std::future::get\<close>: blocks (\<open>None\<close>) while the shared state is pending, then returns the
  value or rethrows the stored exception.\<close>

fun await :: "'a shared_state \<Rightarrow> (error + 'a) option" where
  "await Pending = None"
| "await (Ready v) = Some (Inr v)"
| "await (Failed e) = Some (Inl (TaskFailure e))"

text \<open>What \<^verbatim>\<open>packaged_task::operator()\<close> stores for a callable.\<close>

fun outcome :: "'a callable \<Rightarrow> 'a shared_state" where
  "outcome (Returns v) = Ready v"
| "outcome (Throws e) = Failed e"

subsection \<open>Program counters and the state\<close>

datatype thread = Worker nat | Caller nat | Destructor

text \<open>
  The worker lambda. \<open>W_Idle\<close>: top of the loop, before the lock of line 88.
  \<open>W_Locked\<close>: holds the mutex, inside \<^verbatim>\<open>condition.wait\<close>, about to evaluate the predicate of
  line 94. \<open>W_Sleeping\<close>: blocked on the condition variable, mutex released.
  \<open>W_Woken\<close>: notified (or woken spuriously), about to take the mutex again.
  \<open>W_Check\<close>: the wait has completed, at the test of line 97, mutex held.
  \<open>W_Run h\<close>: the critical section is left, about to call \<^verbatim>\<open>task()\<close> (line 107) on the
  work item \<open>h\<close>. \<open>W_Terminated\<close>: returned at line 98. \<open>W_Undefined\<close>: undefined
  behaviour inside the critical section (\<^verbatim>\<open>front()\<close> of an empty queue); the mutex is never
  released. \<open>W_Crashed\<close>: an exception has left the thread function.
\<close>

datatype wpc = W_Idle | W_Locked | W_Sleeping | W_Woken | W_Check | W_Run nat
  | W_Terminated | W_Undefined | W_Crashed

text \<open>
  A call of \<^verbatim>\<open>enqueue\<close>. \<open>E_Lock\<close>: packaged task and future made (lines 133-138), before the
  lock of line 142. \<open>E_Crit\<close>: holds the mutex, at the test of line 145.
  \<open>E_Thrown m\<close>: left by \<^verbatim>\<open>throw std::runtime_error(m)\<close>. \<open>E_Notify\<close>: item placed and mutex
  released, before \<^verbatim>\<open>notify_one\<close> (line 154). \<open>E_Returned\<close>: returned the future.
\<close>

datatype epc = E_Lock | E_Crit | E_Thrown string | E_Notify | E_Returned

text \<open>
  The destructor. \<open>D_Lock\<close>: before the lock of line 173 (not yet started, or waiting for
  the mutex). \<open>D_Crit\<close>: holds the mutex, before \<^verbatim>\<open>stop = true\<close>. \<open>D_Notify\<close>: before
  \<^verbatim>\<open>notify_all\<close>. \<open>D_Join k\<close>: in the loop of lines 181-182, about to join worker \<open>k\<close>.
  \<open>D_Returned\<close>: the destructor has returned.
\<close>

datatype dpc = D_Lock | D_Crit | D_Notify | D_Join nat | D_Returned

text \<open>
  A work item on the queue is the lambda \<^verbatim>\<open>[task](){ (*task)(); }\<close>: it is determined by the
  shared pointer it captures, which is modelled by the index \<open>h\<close> of the packaged task in
  the heap (\<open>packaged\<close>, \<open>futures\<close>); the call of \<^verbatim>\<open>enqueue\<close> that made it has the same
  index in \<open>calls\<close>. The condition variable's set of waiters is the set of workers at
  \<open>W_Sleeping\<close>. The last three fields are history variables: the items in the order their
  \<^verbatim>\<open>emplace\<close> happened, in the order they were popped, and in the order their callables
  were invoked.
\<close>

record 'a pool =
  workers :: "wpc list"
  tasks :: "nat list"
  queue_mutex :: "thread option"
  stop :: bool
  packaged :: "'a callable list"
  futures :: "'a shared_state list"
  calls :: "epc list"
  dtor :: dpc
  enq_log :: "nat list"
  deq_log :: "nat list"
  run_log :: "nat list"

subsection \<open>The constructor\<close>

text \<open>
  Lines 70-111: \<^verbatim>\<open>stop(false)\<close>, then one worker per iteration of the loop, each starting at
  the top of its own loop. The body has no test of \<^verbatim>\<open>threads\<close> and no \<^verbatim>\<open>throw\<close>.
\<close>

definition ThreadPool :: "nat \<Rightarrow> 'a pool" where
  "ThreadPool threads =
     \<lparr>workers = replicate threads W_Idle, tasks = [], queue_mutex = None, stop = False,
      packaged = [], futures = [], calls = [], dtor = D_Lock,
      enq_log = [], deq_log = [], run_log = []\<rparr>"

text \<open>The constructor as an operation that may signal an error: it never does.\<close>

definition construct :: "nat \<Rightarrow> error + 'a pool" where
  "construct threads = Inr (ThreadPool threads)"

subsection \<open>The worker loop\<close>

text \<open>
  \<^verbatim>\<open>(*task)()\<close> on the packaged task \<open>h\<close>: with a pending shared state the callable is
  invoked and its outcome stored; otherwise \<^verbatim>\<open>std::future_error\<close> is thrown (\<open>None\<close>).
\<close>

definition invoke :: "nat \<Rightarrow> 'a pool \<Rightarrow> 'a pool option" where
  "invoke h s =
     (if h < length (futures s) \<and> h < length (packaged s) \<and> futures s ! h = Pending
      then Some (s\<lparr>futures := (futures s)[h := outcome (packaged s ! h)],
                   run_log := run_log s @ [h]\<rparr>)
      else None)"

definition worker_step :: "nat \<Rightarrow> 'a pool \<Rightarrow> 'a pool" where
  "worker_step i s =
     (if i < length (workers s) then
        (case workers s ! i of
           W_Idle \<Rightarrow>
             (if queue_mutex s = None
              then s\<lparr>workers := (workers s)[i := W_Locked], queue_mutex := Some (Worker i)\<rparr>
              else s)
         | W_Locked \<Rightarrow>
             (if stop s \<or> tasks s \<noteq> []
              then s\<lparr>workers := (workers s)[i := W_Check]\<rparr>
              else s\<lparr>workers := (workers s)[i := W_Sleeping], queue_mutex := None\<rparr>)
         | W_Sleeping \<Rightarrow> s
         | W_Woken \<Rightarrow>
             (if queue_mutex s = None
              then s\<lparr>workers := (workers s)[i := W_Locked], queue_mutex := Some (Worker i)\<rparr>
              else s)
         | W_Check \<Rightarrow>
             (if stop s \<and> tasks s = []
              then s\<lparr>workers := (workers s)[i := W_Terminated], queue_mutex := None\<rparr>
              else (case tasks s of
                      [] \<Rightarrow> s\<lparr>workers := (workers s)[i := W_Undefined]\<rparr>
                    | h # q \<Rightarrow>
                        s\<lparr>workers := (workers s)[i := W_Run h], tasks := q,
                          queue_mutex := None, deq_log := deq_log s @ [h]\<rparr>))
         | W_Run h \<Rightarrow>
             (case invoke h s of
                None \<Rightarrow> s\<lparr>workers := (workers s)[i := W_Crashed]\<rparr>
              | Some s' \<Rightarrow> s'\<lparr>workers := (workers s')[i := W_Idle]\<rparr>)
         | W_Terminated \<Rightarrow> s
         | W_Undefined \<Rightarrow> s
         | W_Crashed \<Rightarrow> s)
      else s)"

text \<open>A wait on a condition variable may return without a notification.\<close>

definition spurious :: "nat \<Rightarrow> 'a pool \<Rightarrow> 'a pool" where
  "spurious i s =
     (if i < length (workers s) \<and> workers s ! i = W_Sleeping
      then s\<lparr>workers := (workers s)[i := W_Woken]\<rparr> else s)"

subsection \<open>enqueue\<close>

text \<open>Lines 133-138: \<^verbatim>\<open>make_shared\<close> of the packaged task and \<^verbatim>\<open>get_future\<close>.\<close>

definition submit :: "'a callable \<Rightarrow> 'a pool \<Rightarrow> 'a pool" where
  "submit c s =
     s\<lparr>packaged := packaged s @ [c], futures := futures s @ [Pending],
       calls := calls s @ [E_Lock]\<rparr>"

text \<open>Lines 141-151: the critical section.\<close>

definition enqueue_step :: "nat \<Rightarrow> 'a pool \<Rightarrow> 'a pool" where
  "enqueue_step h s =
     (if h < length (calls s) then
        (case calls s ! h of
           E_Lock \<Rightarrow>
             (if queue_mutex s = None
              then s\<lparr>calls := (calls s)[h := E_Crit], queue_mutex := Some (Caller h)\<rparr>
              else s)
         | E_Crit \<Rightarrow>
             (if stop s
              then s\<lparr>calls := (calls s)[h := E_Thrown ''enqueue on stopped ThreadPool''],
                     queue_mutex := None\<rparr>
              else s\<lparr>calls := (calls s)[h := E_Notify], tasks := tasks s @ [h],
                     queue_mutex := None, enq_log := enq_log s @ [h]\<rparr>)
         | _ \<Rightarrow> s)
      else s)"

text \<open>
  Line 154, \<^verbatim>\<open>condition.notify_one()\<close>, and the return of line 157. Which waiter wakes is
  not determined by the code: the schedule names it (\<open>Some i\<close>), or names none when no
  worker waits.
\<close>

definition notify_one :: "nat \<Rightarrow> nat option \<Rightarrow> 'a pool \<Rightarrow> 'a pool" where
  "notify_one h t s =
     (if h < length (calls s) \<and> calls s ! h = E_Notify then
        (case t of
           None \<Rightarrow>
             (if W_Sleeping \<in> set (workers s) then s
              else s\<lparr>calls := (calls s)[h := E_Returned]\<rparr>)
         | Some i \<Rightarrow>
             (if i < length (workers s) \<and> workers s ! i = W_Sleeping
              then s\<lparr>workers := (workers s)[i := W_Woken],
                     calls := (calls s)[h := E_Returned]\<rparr>
              else s))
      else s)"

subsection \<open>The destructor\<close>

definition wake :: "wpc \<Rightarrow> wpc" where
  "wake w = (if w = W_Sleeping then W_Woken else w)"

definition dtor_step :: "'a pool \<Rightarrow> 'a pool" where
  "dtor_step s =
     (case dtor s of
        D_Lock \<Rightarrow>
          (if queue_mutex s = None
           then s\<lparr>queue_mutex := Some Destructor, dtor := D_Crit\<rparr> else s)
      | D_Crit \<Rightarrow> s\<lparr>stop := True, queue_mutex := None, dtor := D_Notify\<rparr>
      | D_Notify \<Rightarrow> s\<lparr>workers := map wake (workers s), dtor := D_Join 0\<rparr>
      | D_Join k \<Rightarrow>
          (if k < length (workers s)
           then (if workers s ! k = W_Terminated then s\<lparr>dtor := D_Join (Suc k)\<rparr> else s)
           else s\<lparr>dtor := D_Returned\<rparr>)
      | D_Returned \<Rightarrow> s)"

subsection \<open>Schedules\<close>

datatype 'a event =
    Submit "'a callable"
  | Enq nat
  | Notify nat "nat option"
  | Work nat
  | Spurious nat
  | Dtor

fun step :: "'a event \<Rightarrow> 'a pool \<Rightarrow> 'a pool" where
  "step (Submit c) s = submit c s"
| "step (Enq h) s = enqueue_step h s"
| "step (Notify h t) s = notify_one h t s"
| "step (Work i) s = worker_step i s"
| "step (Spurious i) s = spurious i s"
| "step Dtor s = dtor_step s"

fun exec :: "'a event list \<Rightarrow> 'a pool \<Rightarrow> 'a pool" where
  "exec [] s = s"
| "exec (e # es) s = exec es (step e s)"

text \<open>The work items held by workers between the pop and the call.\<close>

fun holding :: "wpc \<Rightarrow> nat list" where
  "holding (W_Run h) = [h]"
| "holding _ = []"

definition inflight :: "wpc list \<Rightarrow> nat list" where
  "inflight ws = concat (map holding ws)"

subsection \<open>Predicates on states\<close>

fun in_critical :: "thread \<Rightarrow> 'a pool \<Rightarrow> bool" where
  "in_critical (Worker i) s =
     (i < length (workers s) \<and>
      (workers s ! i = W_Locked \<or> workers s ! i = W_Check \<or> workers s ! i = W_Undefined))"
| "in_critical (Caller h) s = (h < length (calls s) \<and> calls s ! h = E_Crit)"
| "in_critical Destructor s = (dtor s = D_Crit)"

definition mutex_ok :: "'a pool \<Rightarrow> bool" where
  "mutex_ok s \<longleftrightarrow> (\<forall>t. in_critical t s = (queue_mutex s = Some t))"

definition check_ok :: "'a pool \<Rightarrow> bool" where
  "check_ok s \<longleftrightarrow>
     (\<forall>i<length (workers s). queue_mutex s = Some (Worker i) \<longrightarrow>
          workers s ! i = W_Check \<longrightarrow> stop s \<or> tasks s \<noteq> [])"

definition stop_ok :: "'a pool \<Rightarrow> bool" where
  "stop_ok s \<longleftrightarrow> (stop s = (dtor s \<noteq> D_Lock \<and> dtor s \<noteq> D_Crit))"

definition drain_ok :: "'a pool \<Rightarrow> bool" where
  "drain_ok s \<longleftrightarrow> (W_Terminated \<in> set (workers s) \<longrightarrow> stop s \<and> tasks s = [])"

definition join_ok :: "'a pool \<Rightarrow> bool" where
  "join_ok s \<longleftrightarrow>
     (\<forall>k. dtor s = D_Join k \<longrightarrow> (\<forall>i<k. i < length (workers s) \<longrightarrow> workers s ! i = W_Terminated)) \<and>
     (dtor s = D_Returned \<longrightarrow> (\<forall>i<length (workers s). workers s ! i = W_Terminated))"

definition fifo_ok :: "'a pool \<Rightarrow> bool" where
  "fifo_ok s \<longleftrightarrow> enq_log s = deq_log s @ tasks s"

definition ids_ok :: "'a pool \<Rightarrow> bool" where
  "ids_ok s \<longleftrightarrow>
     distinct (enq_log s) \<and>
     (\<forall>h\<in>set (enq_log s).
        h < length (calls s) \<and> (calls s ! h = E_Notify \<or> calls s ! h = E_Returned)) \<and>
     length (packaged s) = length (calls s) \<and> length (futures s) = length (calls s)"

definition flight_ok :: "'a pool \<Rightarrow> bool" where
  "flight_ok s \<longleftrightarrow> mset (deq_log s) = mset (run_log s) + mset (inflight (workers s))"

definition fut_ok :: "'a pool \<Rightarrow> bool" where
  "fut_ok s \<longleftrightarrow>
     (\<forall>h<length (futures s).
        futures s ! h = (if h \<in> set (run_log s) then outcome (packaged s ! h) else Pending))"

definition safe_ok :: "'a pool \<Rightarrow> bool" where
  "safe_ok s \<longleftrightarrow> W_Crashed \<notin> set (workers s) \<and> W_Undefined \<notin> set (workers s)"

definition solo_ok :: "'a pool \<Rightarrow> bool" where
  "solo_ok s \<longleftrightarrow>
     (length (workers s) = 1 \<longrightarrow> deq_log s = run_log s @ inflight (workers s))"

definition invariant :: "'a pool \<Rightarrow> bool" where
  "invariant s \<longleftrightarrow>
     mutex_ok s \<and> check_ok s \<and> stop_ok s \<and> drain_ok s \<and> join_ok s \<and> fifo_ok s \<and>
     ids_ok s \<and> flight_ok s \<and> fut_ok s \<and> safe_ok s \<and> solo_ok s"

text \<open>The steps of the call \<open>h\<close> of \<^verbatim>\<open>enqueue\<close>, and the position such a call is in when it
  has not passed the test of line 145.\<close>

fun of_call :: "nat \<Rightarrow> 'a event \<Rightarrow> bool" where
  "of_call h (Enq k) = (k = h)"
| "of_call h (Notify k t) = (k = h)"
| "of_call h _ = False"

definition rejected :: "nat \<Rightarrow> 'a pool \<Rightarrow> bool" where
  "rejected h s \<longleftrightarrow>
     h < length (calls s) \<and>
     (calls s ! h = E_Lock \<or> calls s ! h = E_Crit \<or>
      calls s ! h = E_Thrown ''enqueue on stopped ThreadPool'')"

subsection \<open>Schedules used as examples\<close>

text \<open>One worker: a task is submitted and placed, the destructor raises the flag and wakes
  the workers, the worker runs the task, finds the queue empty and returns, and the
  destructor joins it.\<close>

definition run_one :: "nat event list" where
  "run_one = [Submit (Returns 7), Enq 0, Enq 0, Notify 0 None,
     Dtor, Dtor, Dtor, Work 0, Work 0, Work 0, Work 0, Work 0, Work 0, Work 0, Dtor, Dtor]"

text \<open>One worker, two callers: the second call places its item first; the worker pops it.
  \<open>rest_two\<close> runs both items and destroys the pool.\<close>

definition run_two :: "nat event list" where
  "run_two = [Submit (Returns 10), Submit (Returns 20), Enq 1, Enq 1, Enq 0, Enq 0,
     Work 0, Work 0, Work 0]"

definition rest_two :: "nat event list" where
  "rest_two = [Work 0, Work 0, Work 0, Work 0, Work 0, Dtor, Dtor, Dtor,
     Work 0, Work 0, Work 0, Dtor, Dtor]"

text \<open>Two workers: one item is on the queue and worker 1 has completed its wait.\<close>

definition to_check :: "nat event list" where
  "to_check = [Submit (Returns 4), Enq 0, Enq 0, Work 1, Work 1]"

text \<open>One worker: the flag is raised, the queue is empty and the worker has completed its
  wait.\<close>

definition to_exit :: "nat event list" where
  "to_exit = [Dtor, Dtor, Work 0, Work 0]"

text \<open>Two workers: a task that throws and a task that returns 7 are placed; worker 0 holds
  the first and worker 1 the second.\<close>

definition boom_seven :: "nat event list" where
  "boom_seven = [Submit (Throws ''boom''), Submit (Returns 7), Enq 0, Enq 0, Enq 1, Enq 1,
     Work 0, Work 0, Work 0, Work 1, Work 1, Work 1]"

text \<open>No worker: a task is submitted and placed, and the destructor runs to its end; its
  join loop has nothing to join.\<close>

definition zero_run :: "nat event list" where
  "zero_run = [Submit (Returns 7), Enq 0, Enq 0, Notify 0 None, Dtor, Dtor, Dtor, Dtor]"

text \<open>A caller is inside the critical section of \<^verbatim>\<open>enqueue\<close>.\<close>

definition at_crit :: "nat event list" where
  "at_crit = [Submit (Returns 4), Enq 0]"

section \<open>Invariants of the reachable states\<close>

text \<open>The mutex is held by the thread that is inside a critical section, and by no other.\<close>

lemma mutex_okD: "mutex_ok s \<Longrightarrow> in_critical t s = (queue_mutex s = Some t)"
  by (simp add: mutex_ok_def)

lemma mutex_ok_init: "mutex_ok (ThreadPool n)"
  unfolding mutex_ok_def
proof
  fix t show "in_critical t (ThreadPool n) = (queue_mutex (ThreadPool n) = Some t)"
    by (cases t) (simp_all add: ThreadPool_def)
qed

lemma mutex_ok_submit: 
  assumes "mutex_ok s" shows "mutex_ok (submit c s)"
  unfolding mutex_ok_def
proof
  fix t show "in_critical t (submit c s) = (queue_mutex (submit c s) = Some t)"
    using mutex_okD[OF assms, of t]
    by (cases t) (auto simp: submit_def nth_append)
qed

lemma mutex_ok_enq:
  assumes "mutex_ok s" shows "mutex_ok (enqueue_step h s)"
  unfolding mutex_ok_def
proof
  fix t show "in_critical t (enqueue_step h s) = (queue_mutex (enqueue_step h s) = Some t)"
    using mutex_okD[OF assms, of t] mutex_okD[OF assms, of "Caller h"]
    by (cases t) (auto simp: enqueue_step_def nth_list_update split: epc.splits)
qed

lemma mutex_ok_notify:
  assumes "mutex_ok s" shows "mutex_ok (notify_one h u s)"
  unfolding mutex_ok_def
proof
  fix t show "in_critical t (notify_one h u s) = (queue_mutex (notify_one h u s) = Some t)"
    using mutex_okD[OF assms, of t] 
    by (cases t) (auto simp: notify_one_def nth_list_update split: option.splits)
qed

lemma mutex_ok_worker:
  assumes "mutex_ok s" shows "mutex_ok (worker_step i s)"
  unfolding mutex_ok_def
proof
  fix t show "in_critical t (worker_step i s) = (queue_mutex (worker_step i s) = Some t)"
    using mutex_okD[OF assms, of t] mutex_okD[OF assms, of "Worker i"]
    by (cases t) (auto simp: worker_step_def invoke_def nth_list_update split: wpc.splits list.splits)
qed

lemma mutex_ok_spurious:
  assumes "mutex_ok s" shows "mutex_ok (spurious i s)"
  unfolding mutex_ok_def
proof
  fix t show "in_critical t (spurious i s) = (queue_mutex (spurious i s) = Some t)"
    using mutex_okD[OF assms, of t] 
    by (cases t) (auto simp: spurious_def nth_list_update)
qed

lemma mutex_ok_dtor:
  assumes "mutex_ok s" shows "mutex_ok (dtor_step s)"
  unfolding mutex_ok_def
proof
  fix t show "in_critical t (dtor_step s) = (queue_mutex (dtor_step s) = Some t)"
    using mutex_okD[OF assms, of t] mutex_okD[OF assms, of Destructor]
    by (cases t) (auto simp: dtor_step_def wake_def split: dpc.splits)
qed

lemma mutex_ok_step: "mutex_ok s \<Longrightarrow> mutex_ok (step e s)"
  by (cases e) (simp_all add: mutex_ok_submit mutex_ok_enq mutex_ok_notify mutex_ok_worker
      mutex_ok_spurious mutex_ok_dtor)

text \<open>At \<open>W_Check\<close> the wait predicate of line 94 holds.\<close>

lemma check_ok_init: "check_ok (ThreadPool n)"
  by (simp add: check_ok_def ThreadPool_def)

lemma check_ok_worker:
  assumes "mutex_ok s" "check_ok s" shows "check_ok (worker_step i s)"
  using assms(2) mutex_okD[OF assms(1), of "Worker i"]
  by (auto simp: check_ok_def worker_step_def invoke_def nth_list_update split: wpc.splits list.splits)

lemma check_ok_enq:
  assumes "mutex_ok s" "check_ok s" shows "check_ok (enqueue_step h s)"
  using assms(2) mutex_okD[OF assms(1), of "Caller h"]
  by (auto simp: check_ok_def enqueue_step_def split: epc.splits)

lemma check_ok_notify:
  assumes "mutex_ok s" "check_ok s" shows "check_ok (notify_one h u s)"
  using assms(2) 
  by (auto simp: check_ok_def notify_one_def nth_list_update split: option.splits)

lemma check_ok_spurious:
  assumes "check_ok s" shows "check_ok (spurious i s)"
  using assms
  by (auto simp: check_ok_def spurious_def nth_list_update)

lemma check_ok_dtor:
  assumes "mutex_ok s" "check_ok s" shows "check_ok (dtor_step s)"
proof -
  have "wake (workers s ! i) = W_Check \<Longrightarrow> workers s ! i = W_Check" for i
    by (simp add: wake_def split: if_splits)
  then show ?thesis
  using assms(2) mutex_okD[OF assms(1), of Destructor]
  by (auto simp: check_ok_def dtor_step_def split: dpc.splits)
qed

lemma check_ok_step: "mutex_ok s \<Longrightarrow> check_ok s \<Longrightarrow> check_ok (step e s)"
  by (cases e) (simp_all add: check_ok_enq check_ok_notify check_ok_worker
      check_ok_spurious check_ok_dtor, simp add: check_ok_def submit_def)

text \<open>The flag is raised by the destructor and by nothing else.\<close>

lemma stop_ok_init: "stop_ok (ThreadPool n)"
  by (simp add: stop_ok_def ThreadPool_def)

lemma stop_ok_step: "stop_ok s \<Longrightarrow> stop_ok (step e s)"
  by (cases e)
    (auto simp: stop_ok_def submit_def enqueue_step_def notify_one_def worker_step_def
      invoke_def spurious_def dtor_step_def
      split: epc.splits option.splits wpc.splits list.splits dpc.splits)

lemma stop_mono_step: "stop s \<Longrightarrow> stop (step e s)"
  by (cases e)
    (auto simp: submit_def enqueue_step_def notify_one_def worker_step_def
      invoke_def spurious_def dtor_step_def
      split: epc.splits option.splits wpc.splits list.splits dpc.splits)

text \<open>A worker terminates only after the flag is raised and with the queue empty; from then on
  the queue stays empty.\<close>

lemma in_set_updateD: "x \<in> set (xs[i := y]) \<Longrightarrow> x \<noteq> y \<Longrightarrow> x \<in> set xs"
  using set_update_subset_insert[of xs i y] by auto

lemma drain_ok_init: "drain_ok (ThreadPool n)"
  by (simp add: drain_ok_def ThreadPool_def)

lemma drain_ok_worker: "drain_ok s \<Longrightarrow> drain_ok (worker_step i s)"
  by (auto simp: drain_ok_def worker_step_def invoke_def
      split: wpc.splits list.splits dest: in_set_updateD)

lemma drain_ok_enq: "drain_ok s \<Longrightarrow> drain_ok (enqueue_step h s)"
  by (auto simp: drain_ok_def enqueue_step_def split: epc.splits)

lemma drain_ok_notify: "drain_ok s \<Longrightarrow> drain_ok (notify_one h u s)"
  by (auto simp: drain_ok_def notify_one_def split: option.splits dest: in_set_updateD)

lemma drain_ok_spurious: "drain_ok s \<Longrightarrow> drain_ok (spurious i s)"
  by (auto simp: drain_ok_def spurious_def dest: in_set_updateD)

lemma drain_ok_dtor: "drain_ok s \<Longrightarrow> drain_ok (dtor_step s)"
  by (auto simp: drain_ok_def dtor_step_def wake_def split: dpc.splits if_splits)

lemma drain_ok_step: "drain_ok s \<Longrightarrow> drain_ok (step e s)"
  by (cases e) (simp_all add: drain_ok_enq drain_ok_notify drain_ok_worker
      drain_ok_spurious drain_ok_dtor, simp add: drain_ok_def submit_def)

text \<open>The workers the destructor has joined are terminated.\<close>

lemma join_ok_init: "join_ok (ThreadPool n)"
  by (simp add: join_ok_def ThreadPool_def)

lemma join_ok_worker: "join_ok s \<Longrightarrow> join_ok (worker_step i s)"
  by (auto simp: join_ok_def worker_step_def invoke_def nth_list_update
      split: wpc.splits list.splits)

lemma join_ok_enq: "join_ok s \<Longrightarrow> join_ok (enqueue_step h s)"
  by (auto simp: join_ok_def enqueue_step_def split: epc.splits)

lemma join_ok_notify: "join_ok s \<Longrightarrow> join_ok (notify_one h u s)"
  by (auto simp: join_ok_def notify_one_def nth_list_update split: option.splits)

lemma join_ok_spurious: "join_ok s \<Longrightarrow> join_ok (spurious i s)"
  by (auto simp: join_ok_def spurious_def nth_list_update)

lemma join_ok_dtor: "join_ok s \<Longrightarrow> join_ok (dtor_step s)"
  by (auto simp: join_ok_def dtor_step_def wake_def less_Suc_eq split: dpc.splits)

lemma join_ok_step: "join_ok s \<Longrightarrow> join_ok (step e s)"
  by (cases e) (simp_all add: join_ok_enq join_ok_notify join_ok_worker
      join_ok_spurious join_ok_dtor, simp add: join_ok_def submit_def)

text \<open>Every popped item is held by a worker or has been invoked.\<close>

lemma inflight_update:
  "i < length ws \<Longrightarrow>
   mset (inflight (ws[i := w])) + mset (holding (ws ! i)) = mset (holding w) + mset (inflight ws)"
proof (induction ws arbitrary: i)
  case Nil
  then show ?case by simp
next
  case (Cons a ws)
  show ?case
  proof (cases i)
    case 0
    then show ?thesis by (simp add: inflight_def)
  next
    case (Suc j)
    with Cons.prems have "j < length ws" by simp
    from Cons.IH[OF this] show ?thesis using Suc
      by (simp add: inflight_def ac_simps)
  qed
qed

lemma inflight_idle:
  "i < length ws \<Longrightarrow> holding (ws ! i) = [] \<Longrightarrow> holding w = [] \<Longrightarrow>
   mset (inflight (ws[i := w])) = mset (inflight ws)"
  using inflight_update[of i ws w] by simp

lemma inflight_pop:
  "i < length ws \<Longrightarrow> holding (ws ! i) = [] \<Longrightarrow>
   mset (inflight (ws[i := W_Run h])) = add_mset h (mset (inflight ws))"
  using inflight_update[of i ws "W_Run h"] by simp

lemma inflight_run:
  "i < length ws \<Longrightarrow> ws ! i = W_Run h \<Longrightarrow> holding w = [] \<Longrightarrow>
   add_mset h (mset (inflight (ws[i := w]))) = mset (inflight ws)"
  using inflight_update[of i ws w] by simp

lemma inflight_wake: "inflight (map wake ws) = inflight ws"
  by (induction ws) (auto simp: inflight_def wake_def)

lemma fifo_ok_init: "fifo_ok (ThreadPool n)"
  by (simp add: fifo_ok_def ThreadPool_def)

lemma fifo_ok_step: "fifo_ok s \<Longrightarrow> fifo_ok (step e s)"
  by (cases e)
    (auto simp: fifo_ok_def submit_def enqueue_step_def notify_one_def worker_step_def
      invoke_def spurious_def dtor_step_def
      split: epc.splits option.splits wpc.splits list.splits dpc.splits)

lemma ids_ok_init: "ids_ok (ThreadPool n)"
  by (simp add: ids_ok_def ThreadPool_def)

lemma ids_ok_submit: "ids_ok s \<Longrightarrow> ids_ok (submit c s)"
  by (auto simp: ids_ok_def submit_def nth_append)

lemma ids_ok_enq: "ids_ok s \<Longrightarrow> ids_ok (enqueue_step h s)"
  by (auto simp: ids_ok_def enqueue_step_def nth_list_update split: epc.splits)

lemma ids_ok_notify: "ids_ok s \<Longrightarrow> ids_ok (notify_one h u s)"
  by (auto simp: ids_ok_def notify_one_def nth_list_update split: option.splits)

lemma ids_ok_worker: "ids_ok s \<Longrightarrow> ids_ok (worker_step i s)"
  by (auto simp: ids_ok_def worker_step_def invoke_def split: wpc.splits list.splits)

lemma ids_ok_step: "ids_ok s \<Longrightarrow> ids_ok (step e s)"
  by (cases e) (simp_all add: ids_ok_submit ids_ok_enq ids_ok_notify ids_ok_worker,
      auto simp: ids_ok_def spurious_def dtor_step_def split: dpc.splits)

lemma flight_ok_init: "flight_ok (ThreadPool n)"
  by (simp add: flight_ok_def ThreadPool_def inflight_def)

lemma fut_ok_init: "fut_ok (ThreadPool n)"
  by (simp add: fut_ok_def ThreadPool_def)

text \<open>A work item held by a worker has not been invoked, and its shared state is pending.\<close>

lemma held_not_run:
  assumes "fifo_ok s" "flight_ok s" "ids_ok s"
    and i: "i < length (workers s)" and r: "workers s ! i = W_Run h"
  shows "h \<notin> set (run_log s) \<and> h \<in> set (enq_log s)"
proof -
  have d: "distinct (deq_log s)"
    using assms(1,3) by (simp add: fifo_ok_def ids_ok_def)
  have "mset (inflight (workers s)) = add_mset h (mset (inflight ((workers s)[i := W_Idle])))"
    using inflight_run[OF i r, of W_Idle] by simp
  then have m: "mset (deq_log s) =
      add_mset h (mset (run_log s) + mset (inflight ((workers s)[i := W_Idle])))"
    using assms(2) by (simp add: flight_ok_def)
  have "count (mset (deq_log s)) h \<le> 1"
    using d by (simp add: distinct_count_atmost_1)
  then have "count (mset (run_log s)) h = 0"
    unfolding m by simp
  then have "h \<notin> set (run_log s)"
    by (simp add: count_eq_zero_iff)
  moreover have "h \<in> set (deq_log s)"
    using m by (metis union_single_eq_member set_mset_mset)
  ultimately show ?thesis
    using assms(1) by (simp add: fifo_ok_def)
qed

lemma held_invoke:
  assumes "fifo_ok s" "flight_ok s" "ids_ok s" "fut_ok s"
    and i: "i < length (workers s)" and r: "workers s ! i = W_Run h"
  shows "invoke h s = Some (s\<lparr>futures := (futures s)[h := outcome (packaged s ! h)],
                   run_log := run_log s @ [h]\<rparr>)"
proof -
  from held_not_run[OF assms(1,2,3) i r]
  have a: "h \<notin> set (run_log s)" and b: "h \<in> set (enq_log s)" by simp_all
  from b assms(3) have "h < length (futures s)" "h < length (packaged s)"
    by (auto simp: ids_ok_def)
  with a assms(4) show ?thesis
    by (simp add: invoke_def fut_ok_def)
qed

lemma worker_step_run:
  assumes "fifo_ok s" "flight_ok s" "ids_ok s" "fut_ok s"
    and i: "i < length (workers s)" and r: "workers s ! i = W_Run h"
  shows "worker_step i s =
     s\<lparr>futures := (futures s)[h := outcome (packaged s ! h)],
       run_log := run_log s @ [h], workers := (workers s)[i := W_Idle]\<rparr>"
  using held_invoke[OF assms] i r by (simp add: worker_step_def)

lemma flight_ok_worker:
  assumes "fifo_ok s" "flight_ok s" "ids_ok s" "fut_ok s"
  shows "flight_ok (worker_step i s)"
proof (cases "i < length (workers s)")
  case False
  then show ?thesis using assms(2) by (simp add: worker_step_def)
next
  case i: True
  show ?thesis
  proof (cases "\<exists>h. workers s ! i = W_Run h")
    case True
    then obtain h where r: "workers s ! i = W_Run h" by blast
    show ?thesis
      using assms(2) inflight_run[OF i r, of W_Idle]
      by (simp add: worker_step_run[OF assms i r] flight_ok_def)
  next
    case False
    then have "holding (workers s ! i) = []"
      by (cases "workers s ! i") simp_all
    then show ?thesis
      using assms(2) i False
      by (auto simp: flight_ok_def worker_step_def inflight_idle inflight_pop
          split: wpc.splits list.splits)
  qed
qed

lemma flight_ok_step:
  assumes "fifo_ok s" "flight_ok s" "ids_ok s" "fut_ok s"
  shows "flight_ok (step e s)"
proof (cases e)
  case (Work i)
  then show ?thesis using flight_ok_worker[OF assms] by simp
qed (use assms(2) in \<open>auto simp: flight_ok_def submit_def enqueue_step_def notify_one_def
      spurious_def dtor_step_def inflight_idle inflight_wake
      split: epc.splits option.splits dpc.splits\<close>)

lemma fut_ok_worker:
  assumes "fifo_ok s" "flight_ok s" "ids_ok s" "fut_ok s"
  shows "fut_ok (worker_step i s)"
proof (cases "i < length (workers s)")
  case False
  then show ?thesis using assms(4) by (simp add: worker_step_def)
next
  case i: True
  show ?thesis
  proof (cases "\<exists>h. workers s ! i = W_Run h")
    case True
    then obtain h where r: "workers s ! i = W_Run h" by blast
    show ?thesis
      unfolding fut_ok_def worker_step_run[OF assms i r]
    proof (intro allI impI)
      fix k
      assume "k < length (futures (s\<lparr>futures := (futures s)[h := outcome (packaged s ! h)],
          run_log := run_log s @ [h], workers := (workers s)[i := W_Idle]\<rparr>))"
      then have k: "k < length (futures s)" by simp
      from assms(4) k have "futures s ! k =
          (if k \<in> set (run_log s) then outcome (packaged s ! k) else Pending)"
        by (simp add: fut_ok_def)
      with k show "futures (s\<lparr>futures := (futures s)[h := outcome (packaged s ! h)],
          run_log := run_log s @ [h], workers := (workers s)[i := W_Idle]\<rparr>) ! k =
        (if k \<in> set (run_log (s\<lparr>futures := (futures s)[h := outcome (packaged s ! h)],
          run_log := run_log s @ [h], workers := (workers s)[i := W_Idle]\<rparr>))
         then outcome (packaged (s\<lparr>futures := (futures s)[h := outcome (packaged s ! h)],
          run_log := run_log s @ [h], workers := (workers s)[i := W_Idle]\<rparr>) ! k)
         else Pending)"
        by (cases "k = h") auto
    qed
  next
    case False
    then show ?thesis
      using assms(4) i
      by (auto simp: fut_ok_def worker_step_def split: wpc.splits list.splits)
  qed
qed

lemma run_log_subset:
  assumes "fifo_ok s" "flight_ok s"
  shows "set (run_log s) \<subseteq> set (enq_log s)"
proof -
  have "set_mset (mset (deq_log s)) = set_mset (mset (run_log s) + mset (inflight (workers s)))"
    using assms(2) by (simp add: flight_ok_def)
  then have "set (run_log s) \<subseteq> set (deq_log s)" by auto
  then show ?thesis using assms(1) by (auto simp: fifo_ok_def)
qed

lemma fut_ok_submit:
  assumes "fifo_ok s" "flight_ok s" "ids_ok s" "fut_ok s"
  shows "fut_ok (submit c s)"
proof -
  have "length (calls s) \<notin> set (run_log s)"
    using run_log_subset[OF assms(1,2)] assms(3) by (auto simp: ids_ok_def)
  then show ?thesis
    using assms(3,4) by (auto simp: fut_ok_def ids_ok_def submit_def nth_append less_Suc_eq)
qed

lemma fut_ok_step:
  assumes "fifo_ok s" "flight_ok s" "ids_ok s" "fut_ok s"
  shows "fut_ok (step e s)"
proof (cases e)
  case (Work i)
  then show ?thesis using fut_ok_worker[OF assms] by simp
next
  case (Submit c)
  then show ?thesis using fut_ok_submit[OF assms] by simp
qed (use assms(4) in \<open>auto simp: fut_ok_def enqueue_step_def notify_one_def
      spurious_def dtor_step_def 
      split: epc.splits option.splits dpc.splits\<close>)

text \<open>No worker crashes; with a single worker the pops and the invocations are in step.\<close>

lemma safe_ok_init: "safe_ok (ThreadPool n)"
  by (simp add: safe_ok_def ThreadPool_def)

lemma safe_ok_worker:
  assumes "mutex_ok s" "check_ok s" "fifo_ok s" "flight_ok s" "ids_ok s" "fut_ok s" "safe_ok s"
  shows "safe_ok (worker_step i s)"
proof (cases "i < length (workers s)")
  case False
  then show ?thesis using assms(7) by (simp add: worker_step_def)
next
  case i: True
  show ?thesis
  proof (cases "\<exists>h. workers s ! i = W_Run h")
    case True
    then obtain h where r: "workers s ! i = W_Run h" by blast
    show ?thesis
      using assms(7)
      by (auto simp: worker_step_run[OF assms(3-6) i r] safe_ok_def dest: in_set_updateD)
  next
    case False
    then show ?thesis
      using assms(7) i mutex_okD[OF assms(1), of "Worker i"] assms(2)
      by (auto simp: safe_ok_def worker_step_def check_ok_def
          split: wpc.splits list.splits dest: in_set_updateD)
  qed
qed

lemma safe_ok_step:
  assumes "mutex_ok s" "check_ok s" "fifo_ok s" "flight_ok s" "ids_ok s" "fut_ok s" "safe_ok s"
  shows "safe_ok (step e s)"
proof (cases e)
  case (Work i)
  then show ?thesis using safe_ok_worker[OF assms] by simp
qed (use assms(7) in \<open>auto simp: safe_ok_def submit_def enqueue_step_def notify_one_def
      spurious_def dtor_step_def wake_def
      split: epc.splits option.splits dpc.splits if_splits dest: in_set_updateD\<close>)

lemma solo_ok_init: "solo_ok (ThreadPool n)"
  by (simp add: solo_ok_def ThreadPool_def inflight_def)

lemma solo_ok_worker:
  assumes "fifo_ok s" "flight_ok s" "ids_ok s" "fut_ok s" "solo_ok s"
  shows "solo_ok (worker_step i s)"
proof (cases "length (workers s) = 1 \<and> i < length (workers s)")
  case False
  then show ?thesis using assms(5)
    by (auto simp: solo_ok_def worker_step_def invoke_def split: wpc.splits list.splits)
next
  case True
  then obtain w where w: "workers s = [w]" and i: "i = 0" "i < length (workers s)"
    by (auto simp: length_Suc_conv)
  show ?thesis
  proof (cases "\<exists>h. w = W_Run h")
    case True
    then obtain h where r: "workers s ! i = W_Run h" using w i by auto
    show ?thesis
      unfolding worker_step_run[OF assms(1-4) i(2) r]
      using assms(5) w r i(1) by (simp add: solo_ok_def inflight_def)
  next
    case False
    then show ?thesis
      using assms(5) w i
      by (auto simp: solo_ok_def worker_step_def inflight_def split: wpc.splits list.splits)
  qed
qed

lemma solo_ok_step:
  assumes "fifo_ok s" "flight_ok s" "ids_ok s" "fut_ok s" "solo_ok s"
  shows "solo_ok (step e s)"
proof (cases e)
  case (Work i)
  then show ?thesis using solo_ok_worker[OF assms] by simp
next
  case (Notify h t)
  show ?thesis
  proof (cases "length (workers s) = 1")
    case False
    then show ?thesis using Notify
      by (auto simp: solo_ok_def notify_one_def split: option.splits)
  next
    case True
    then obtain w where w: "workers s = [w]" by (auto simp: length_Suc_conv)
    then show ?thesis using assms(5) Notify
      by (auto simp: solo_ok_def notify_one_def inflight_def split: option.splits)
  qed
next
  case (Spurious i)
  show ?thesis
  proof (cases "length (workers s) = 1")
    case False
    then show ?thesis using Spurious
      by (auto simp: solo_ok_def spurious_def)
  next
    case True
    then obtain w where w: "workers s = [w]" by (auto simp: length_Suc_conv)
    then show ?thesis using assms(5) Spurious
      by (auto simp: solo_ok_def spurious_def inflight_def)
  qed
qed (use assms(5) in \<open>auto simp: solo_ok_def submit_def enqueue_step_def
      dtor_step_def inflight_wake
      split: epc.splits dpc.splits\<close>)

lemma invariant_init: "invariant (ThreadPool n)"
  by (simp add: invariant_def mutex_ok_init check_ok_init stop_ok_init drain_ok_init
      join_ok_init fifo_ok_init ids_ok_init flight_ok_init fut_ok_init safe_ok_init solo_ok_init)

lemma invariant_step: "invariant s \<Longrightarrow> invariant (step e s)"
  unfolding invariant_def
  by (intro conjI mutex_ok_step check_ok_step stop_ok_step drain_ok_step join_ok_step
      fifo_ok_step ids_ok_step flight_ok_step fut_ok_step safe_ok_step solo_ok_step) simp_all

lemma invariant_exec: "invariant s \<Longrightarrow> invariant (exec evs s)"
  by (induction evs arbitrary: s) (simp_all add: invariant_step)

lemma reachable_invariant: "invariant (exec evs (ThreadPool n))"
  by (rule invariant_exec[OF invariant_init])

lemma length_workers_step: "length (workers (step e s)) = length (workers s)"
  by (cases e)
    (auto simp: submit_def enqueue_step_def notify_one_def worker_step_def
      invoke_def spurious_def dtor_step_def
      split: epc.splits option.splits wpc.splits list.splits dpc.splits)

lemma length_workers_exec: "length (workers (exec evs s)) = length (workers s)"
  by (induction evs arbitrary: s) (simp_all add: length_workers_step)

lemma length_workers_reachable: "length (workers (exec evs (ThreadPool n))) = n"
  by (simp add: length_workers_exec) (simp add: ThreadPool_def)

lemma stop_mono_exec: "stop s \<Longrightarrow> stop (exec evs s)"
  by (induction evs arbitrary: s) (simp_all add: stop_mono_step)

lemma inflight_terminated: "\<forall>w\<in>set ws. w = W_Terminated \<Longrightarrow> inflight ws = []"
  by (induction ws) (auto simp: inflight_def)

section \<open>Lemmas about schedules\<close>

lemmas step_defs = ThreadPool_def submit_def enqueue_step_def notify_one_def worker_step_def
  invoke_def spurious_def dtor_step_def wake_def

lemma drained:
  fixes evs :: "'a event list" and n :: nat
  defines "s \<equiv> exec evs (ThreadPool n)"
  assumes "1 \<le> n" and "dtor s = D_Returned"
  shows "stop s \<and> tasks s = [] \<and> (\<forall>w\<in>set (workers s). w = W_Terminated) \<and>
         mset (run_log s) = mset (enq_log s)"
proof -
  have inv: "invariant s" unfolding s_def by (rule reachable_invariant)
  have len: "length (workers s) = n" unfolding s_def by (rule length_workers_reachable)
  from inv assms(3) have all: "\<forall>i<length (workers s). workers s ! i = W_Terminated"
    by (simp add: invariant_def join_ok_def)
  then have allt: "\<forall>w\<in>set (workers s). w = W_Terminated"
    by (auto simp: in_set_conv_nth)
  have pos: "0 < length (workers s)" using len assms(2) by simp
  then have "workers s ! 0 \<in> set (workers s)" by (rule nth_mem)
  moreover have "workers s ! 0 = W_Terminated" using all pos by blast
  ultimately have "W_Terminated \<in> set (workers s)" by simp
  with inv have st: "stop s" "tasks s = []"
    by (simp_all add: invariant_def drain_ok_def)
  from inv have "mset (deq_log s) = mset (run_log s) + mset (inflight (workers s))"
    and "enq_log s = deq_log s @ tasks s"
    by (simp_all add: invariant_def flight_ok_def fifo_ok_def)
  then have m: "mset (run_log s) = mset (enq_log s)"
    using st inflight_terminated[OF allt] by simp
  with st allt show ?thesis by simp
qed

lemma others_keep_run:
  assumes "e \<noteq> Work i" "i < length (workers s)" "workers s ! i = W_Run h"
  shows "workers (step e s) ! i = W_Run h"
proof (cases e)
  case (Work j)
  with assms(1) have "j \<noteq> i" by simp
  then show ?thesis using assms(2,3) Work
    by (auto simp: worker_step_def invoke_def split: wpc.splits list.splits option.splits)
next
  case Dtor
  then show ?thesis using assms(2,3)
    by (auto simp: dtor_step_def wake_def split: dpc.splits)
qed (use assms(2,3) in \<open>auto simp: submit_def enqueue_step_def notify_one_def spurious_def
      nth_list_update split: epc.splits option.splits\<close>)

lemma others_keep_run_exec:
  "Work i \<notin> set evs \<Longrightarrow> i < length (workers s) \<Longrightarrow> workers s ! i = W_Run h \<Longrightarrow>
   workers (exec evs s) ! i = W_Run h"
proof (induction evs arbitrary: s)
  case Nil
  then show ?case by simp
next
  case (Cons e evs)
  from Cons.prems have "e \<noteq> Work i" by auto
  from others_keep_run[OF this Cons.prems(2,3)] Cons.prems(1,2) Cons.IH[of "step e s"]
  show ?case by (simp add: length_workers_step)
qed

lemma rejected_step: "stop s \<Longrightarrow> rejected h s \<Longrightarrow> rejected h (step e s)"
  by (cases e)
    (auto simp: rejected_def submit_def enqueue_step_def notify_one_def worker_step_def
      invoke_def spurious_def dtor_step_def nth_list_update nth_append
      split: epc.splits option.splits wpc.splits list.splits dpc.splits)

lemma rejected_exec: "stop s \<Longrightarrow> rejected h s \<Longrightarrow> rejected h (exec evs s)"
  by (induction evs arbitrary: s) (simp_all add: rejected_step stop_mono_step)

lemma stopped_enq_log_step: "stop s \<Longrightarrow> enq_log (step e s) = enq_log s"
  by (cases e)
    (auto simp: submit_def enqueue_step_def notify_one_def worker_step_def
      invoke_def spurious_def dtor_step_def
      split: epc.splits option.splits wpc.splits list.splits dpc.splits)

lemma stopped_enq_log_exec: "stop s \<Longrightarrow> enq_log (exec evs s) = enq_log s"
  by (induction evs arbitrary: s) (simp_all add: stopped_enq_log_step stop_mono_step)

lemma stopped_call_tasks: "stop s \<Longrightarrow> of_call h e \<Longrightarrow> tasks (step e s) = tasks s"
  by (cases e)
    (auto simp: enqueue_step_def notify_one_def split: epc.splits option.splits)

lemma run_log_step_cases:
  assumes "run_log (step e s) \<noteq> run_log s"
  shows "\<exists>i h. e = Work i \<and> i < length (workers s) \<and> workers s ! i = W_Run h \<and>
           run_log (step e s) = run_log s @ [h]"
proof (cases e)
  case (Work i)
  with assms show ?thesis
    by (auto simp: worker_step_def invoke_def split: if_splits wpc.splits list.splits)
qed (use assms in \<open>auto simp: submit_def enqueue_step_def notify_one_def spurious_def
      dtor_step_def split: epc.splits option.splits dpc.splits if_splits\<close>)

section \<open>Progress: the destructor can always return\<close>

lemma exec_append: "exec (a @ b) s = exec b (exec a s)"
  by (induction a arbitrary: s) simp_all

lemma worker_step_other:
  "j \<noteq> i \<Longrightarrow> workers (worker_step i s) ! j = workers s ! j"
  by (auto simp: worker_step_def invoke_def split: wpc.splits list.splits)

lemma worker_step_terminated:
  "workers s ! i = W_Terminated \<Longrightarrow> worker_step i s = s"
  by (simp add: worker_step_def)

lemma terminated_stable:
  assumes "j < length (workers s)" "workers s ! j = W_Terminated"
  shows "workers (step e s) ! j = W_Terminated"
proof (cases e)
  case (Work i)
  show ?thesis
  proof (cases "i = j")
    case True
    then show ?thesis using Work assms by (simp add: worker_step_terminated)
  next
    case False
    then show ?thesis using Work assms by (simp add: worker_step_other)
  qed
next
  case (Submit c)
  then show ?thesis using assms by (simp add: submit_def)
next
  case (Enq h)
  then show ?thesis using assms by (simp add: enqueue_step_def split: epc.splits)
next
  case (Notify h t)
  then show ?thesis using assms
    by (auto simp: notify_one_def nth_list_update split: option.splits)
next
  case (Spurious i)
  then show ?thesis using assms by (auto simp: spurious_def nth_list_update)
next
  case Dtor
  then show ?thesis using assms by (auto simp: dtor_step_def wake_def split: dpc.splits)
qed


lemma terminated_stable_exec:
  "j < length (workers s) \<Longrightarrow> workers s ! j = W_Terminated \<Longrightarrow>
   workers (exec es s) ! j = W_Terminated"
proof (induction es arbitrary: s)
  case Nil
  then show ?case by simp
next
  case (Cons e es)
  have "j < length (workers (step e s))"
    using Cons.prems(1) by (simp only: length_workers_step)
  moreover have "workers (step e s) ! j = W_Terminated"
    using Cons.prems by (rule terminated_stable)
  ultimately have "workers (exec es (step e s)) ! j = W_Terminated"
    by (rule Cons.IH)
  then show ?case by simp
qed

lemma dtor_stable: "e \<noteq> Dtor \<Longrightarrow> dtor (step e s) = dtor s"
  by (cases e)
    (auto simp: submit_def enqueue_step_def notify_one_def worker_step_def
      invoke_def spurious_def
      split: epc.splits option.splits wpc.splits list.splits)

lemma dtor_stable_exec: "Dtor \<notin> set es \<Longrightarrow> dtor (exec es s) = dtor s"
proof (induction es arbitrary: s)
  case Nil
  then show ?case by simp
next
  case (Cons e es)
  then have "e \<noteq> Dtor" "Dtor \<notin> set es" by auto
  then show ?case using Cons.IH[of "step e s"] dtor_stable[of e s] by simp
qed

lemma worker_releases_locked:
  assumes "i < length (workers s)" "workers s ! i = W_Locked"
  shows "queue_mutex (worker_step i (worker_step i s)) = None"
proof (cases "stop s \<or> tasks s \<noteq> []")
  case False
  then have "worker_step i s = s\<lparr>workers := (workers s)[i := W_Sleeping], queue_mutex := None\<rparr>"
    using assms by (simp add: worker_step_def)
  then show ?thesis using assms by (simp add: worker_step_def)
next
  case True
  then have e: "worker_step i s = s\<lparr>workers := (workers s)[i := W_Check]\<rparr>"
    using assms by (simp add: worker_step_def)
  show ?thesis
  proof (cases "tasks s")
    case Nil
    with True show ?thesis unfolding e using assms(1) by (simp add: worker_step_def)
  next
    case (Cons x q)
    then show ?thesis unfolding e using assms(1) by (simp add: worker_step_def)
  qed
qed

lemma worker_releases_check:
  assumes "i < length (workers s)" "workers s ! i = W_Check" "stop s \<or> tasks s \<noteq> []"
  shows "queue_mutex (worker_step i s) = None"
proof (cases "tasks s")
  case Nil
  with assms show ?thesis by (simp add: worker_step_def)
next
  case (Cons x q)
  with assms show ?thesis by (simp add: worker_step_def)
qed


text \<open>The thread that holds the mutex can release it.\<close>

lemma free_mutex:
  assumes inv: "invariant s"
  shows "\<exists>es. queue_mutex (exec es s) = None"
proof (cases "queue_mutex s")
  case None
  then have "queue_mutex (exec [] s) = None" by simp
  then show ?thesis by blast
next
  case (Some t)
  have mx: "mutex_ok s" and ck: "check_ok s" and sf: "safe_ok s"
    using inv by (simp_all add: invariant_def)
  from mutex_okD[OF mx, of t] Some have crit: "in_critical t s" by simp
  show ?thesis
  proof (cases t)
    case (Worker i)
    with crit have i: "i < length (workers s)"
      and pc: "workers s ! i = W_Locked \<or> workers s ! i = W_Check \<or> workers s ! i = W_Undefined"
      by simp_all
    from sf i have nu: "workers s ! i \<noteq> W_Undefined"
      by (metis nth_mem safe_ok_def)
    have pred: "workers s ! i = W_Check \<Longrightarrow> stop s \<or> tasks s \<noteq> []"
      using ck i Some Worker by (simp add: check_ok_def)
    from pc nu consider "workers s ! i = W_Locked" | "workers s ! i = W_Check" by blast
    then show ?thesis
    proof cases
      case 1
      from worker_releases_locked[OF i 1]
      have "queue_mutex (exec [Work i, Work i] s) = None" by simp
      then show ?thesis by blast
    next
      case 2
      from worker_releases_check[OF i 2 pred[OF 2]]
      have "queue_mutex (exec [Work i] s) = None" by simp
      then show ?thesis by blast
    qed
  next
    case (Caller h)
    with crit have "queue_mutex (exec [Enq h] s) = None"
      by (simp add: enqueue_step_def)
    then show ?thesis by blast
  next
    case Destructor
    with crit have "queue_mutex (exec [Dtor] s) = None"
      by (simp add: dtor_step_def)
    then show ?thesis by blast
  qed
qed


text \<open>With a free mutex the destructor can raise the flag and reach its join loop.\<close>

lemma raise_stop:
  assumes inv: "invariant s" and free: "queue_mutex s = None"
  shows "\<exists>es. stop (exec es s) \<and> queue_mutex (exec es s) = None \<and>
              ((\<exists>k. dtor (exec es s) = D_Join k) \<or> dtor (exec es s) = D_Returned)"
proof -
  have mx: "mutex_ok s" and so: "stop_ok s"
    using inv by (simp_all add: invariant_def)
  from mutex_okD[OF mx, of Destructor] free have nc: "dtor s \<noteq> D_Crit" by simp
  show ?thesis
  proof (cases "dtor s")
    case D_Lock
    then have "stop (exec [Dtor, Dtor, Dtor] s) \<and> queue_mutex (exec [Dtor, Dtor, Dtor] s) = None \<and>
        dtor (exec [Dtor, Dtor, Dtor] s) = D_Join 0"
      using free by (simp add: dtor_step_def)
    then show ?thesis by blast
  next
    case D_Crit
    with nc show ?thesis by simp
  next
    case D_Notify
    then have "stop (exec [Dtor] s) \<and> queue_mutex (exec [Dtor] s) = None \<and>
        dtor (exec [Dtor] s) = D_Join 0"
      using free so by (simp add: dtor_step_def stop_ok_def)
    then show ?thesis by blast
  next
    case (D_Join k)
    then have "stop (exec [] s) \<and> queue_mutex (exec [] s) = None \<and> dtor (exec [] s) = D_Join k"
      using free so by (simp add: stop_ok_def)
    then show ?thesis by blast
  next
    case D_Returned
    then have "stop (exec [] s) \<and> queue_mutex (exec [] s) = None \<and> dtor (exec [] s) = D_Returned"
      using free so by (simp add: stop_ok_def)
    then show ?thesis by blast
  qed
qed


text \<open>With the flag raised and the mutex free, a worker at the top of its loop runs one
  round: it terminates on an empty queue, and otherwise runs the head of the queue and is
  back at the top of its loop.\<close>

lemma round_empty:
  assumes "i < length (workers s)" "workers s ! i = W_Idle \<or> workers s ! i = W_Woken"
    "queue_mutex s = None" "stop s" "tasks s = []"
  shows "workers (exec [Work i, Work i, Work i] s) ! i = W_Terminated \<and>
         queue_mutex (exec [Work i, Work i, Work i] s) = None"
proof -
  have a: "worker_step i s =
      s\<lparr>workers := (workers s)[i := W_Locked], queue_mutex := Some (Worker i)\<rparr>"
    using assms(1,2,3) by (auto simp: worker_step_def)
  have b: "worker_step i (worker_step i s) =
      s\<lparr>workers := (workers s)[i := W_Check], queue_mutex := Some (Worker i)\<rparr>"
    unfolding a using assms(1,4) by (simp add: worker_step_def)
  have c: "worker_step i (worker_step i (worker_step i s)) =
      s\<lparr>workers := (workers s)[i := W_Terminated], queue_mutex := None\<rparr>"
    unfolding b using assms(1,4,5) by (simp add: worker_step_def)
  show ?thesis using assms(1) by (simp add: c)
qed

lemma round_pop:
  assumes "i < length (workers s)" "workers s ! i = W_Idle \<or> workers s ! i = W_Woken"
    "queue_mutex s = None" "stop s" "tasks s = x # q"
  shows "workers (exec [Work i, Work i, Work i] s) ! i = W_Run x \<and>
         queue_mutex (exec [Work i, Work i, Work i] s) = None \<and>
         tasks (exec [Work i, Work i, Work i] s) = q"
proof -
  have a: "worker_step i s =
      s\<lparr>workers := (workers s)[i := W_Locked], queue_mutex := Some (Worker i)\<rparr>"
    using assms(1,2,3) by (auto simp: worker_step_def)
  have b: "worker_step i (worker_step i s) =
      s\<lparr>workers := (workers s)[i := W_Check], queue_mutex := Some (Worker i)\<rparr>"
    unfolding a using assms(1,4) by (simp add: worker_step_def)
  have c: "worker_step i (worker_step i (worker_step i s)) =
      s\<lparr>workers := (workers s)[i := W_Run x], tasks := q, queue_mutex := None,
        deq_log := deq_log s @ [x]\<rparr>"
    unfolding b using assms(1,4,5) by (simp add: worker_step_def)
  show ?thesis using assms(1) by (simp add: c)
qed

lemma run_to_idle:
  assumes inv: "invariant s" and i: "i < length (workers s)" and r: "workers s ! i = W_Run x"
  shows "workers (step (Work i) s) ! i = W_Idle \<and>
         queue_mutex (step (Work i) s) = queue_mutex s \<and> tasks (step (Work i) s) = tasks s"
proof -
  have v: "fifo_ok s" "flight_ok s" "ids_ok s" "fut_ok s"
    using inv by (simp_all add: invariant_def)
  show ?thesis using i by (simp add: worker_step_run[OF v i r])
qed

lemma finish_worker_idle:
  "invariant s \<Longrightarrow> stop s \<Longrightarrow> queue_mutex s = None \<Longrightarrow> i < length (workers s) \<Longrightarrow>
   workers s ! i = W_Idle \<or> workers s ! i = W_Woken \<Longrightarrow>
   \<exists>es. Dtor \<notin> set es \<and> workers (exec es s) ! i = W_Terminated \<and>
        queue_mutex (exec es s) = None"
proof (induction q \<equiv> "tasks s" arbitrary: s)
  case Nil
  from round_empty[OF Nil(5) Nil(6) Nil(4) Nil(3) Nil(1)[symmetric]]
  have "Dtor \<notin> set [Work i, Work i, Work i :: 'a event] \<and>
      workers (exec [Work i, Work i, Work i] s) ! i = W_Terminated \<and>
      queue_mutex (exec [Work i, Work i, Work i] s) = None"
    by simp
  then show ?case by blast
next
  case (Cons x q)
  let ?s3 = "exec [Work i, Work i, Work i] s"
  let ?s4 = "step (Work i) ?s3"
  from round_pop[OF Cons(6) Cons(7) Cons(5) Cons(4) Cons(2)[symmetric]]
  have p: "workers ?s3 ! i = W_Run x" "queue_mutex ?s3 = None" "tasks ?s3 = q"
    by simp_all
  have inv3: "invariant ?s3" using Cons(3) by (rule invariant_exec)
  have i3: "i < length (workers ?s3)" using Cons(6) by (simp only: length_workers_exec)
  from run_to_idle[OF inv3 i3 p(1)] p
  have p4: "workers ?s4 ! i = W_Idle" "queue_mutex ?s4 = None" "q = tasks ?s4"
    by simp_all
  have inv4: "invariant ?s4" using inv3 by (rule invariant_step)
  have st4: "stop ?s4" using Cons(4) by (intro stop_mono_step stop_mono_exec)
  have i4: "i < length (workers ?s4)" using i3 by (simp only: length_workers_step)
  from Cons(1)[OF p4(3) inv4 st4 p4(2) i4] p4(1)
  obtain es where es: "Dtor \<notin> set es" "workers (exec es ?s4) ! i = W_Terminated"
    "queue_mutex (exec es ?s4) = None" by blast
  have "exec ([Work i, Work i, Work i, Work i] @ es) s = exec es ?s4"
    by simp
  with es have "Dtor \<notin> set ([Work i, Work i, Work i, Work i] @ es) \<and>
      workers (exec ([Work i, Work i, Work i, Work i] @ es) s) ! i = W_Terminated \<and>
      queue_mutex (exec ([Work i, Work i, Work i, Work i] @ es) s) = None"
    by simp
  then show ?case by blast
qed


lemma finish_worker:
  assumes inv: "invariant s" and st: "stop s" and free: "queue_mutex s = None"
    and i: "i < length (workers s)"
  shows "\<exists>es. Dtor \<notin> set es \<and> workers (exec es s) ! i = W_Terminated \<and>
        queue_mutex (exec es s) = None"
proof -
  have mx: "mutex_ok s" and sf: "safe_ok s"
    using inv by (simp_all add: invariant_def)
  from mutex_okD[OF mx, of "Worker i"] free have nc: "\<not> in_critical (Worker i) s" by simp
  from sf i have nu: "workers s ! i \<noteq> W_Crashed"
    by (metis nth_mem safe_ok_def)
  show ?thesis
  proof (cases "workers s ! i")
    case W_Idle
    then show ?thesis using finish_worker_idle[OF inv st free i] by blast
  next
    case W_Woken
    then show ?thesis using finish_worker_idle[OF inv st free i] by blast
  next
    case W_Locked
    with nc i show ?thesis by simp
  next
    case W_Check
    with nc i show ?thesis by simp
  next
    case W_Undefined
    with nc i show ?thesis by simp
  next
    case W_Crashed
    with nu show ?thesis by simp
  next
    case W_Terminated
    then have "Dtor \<notin> set ([] :: 'a event list) \<and> workers (exec [] s) ! i = W_Terminated \<and>
        queue_mutex (exec [] s) = None"
      using free by simp
    then show ?thesis by blast
  next
    case W_Sleeping
    let ?s1 = "step (Spurious i) s"
    have p: "workers ?s1 ! i = W_Woken" "queue_mutex ?s1 = None"
      using W_Sleeping i free by (simp_all add: spurious_def)
    have i1: "i < length (workers ?s1)" using i by (simp only: length_workers_step)
    from finish_worker_idle[OF invariant_step[OF inv] stop_mono_step[OF st] p(2) i1] p(1)
    obtain es where es: "Dtor \<notin> set es" "workers (exec es ?s1) ! i = W_Terminated"
      "queue_mutex (exec es ?s1) = None" by blast
    then have "Dtor \<notin> set (Spurious i # es) \<and>
        workers (exec (Spurious i # es) s) ! i = W_Terminated \<and>
        queue_mutex (exec (Spurious i # es) s) = None"
      by simp
    then show ?thesis by blast
  next
    case (W_Run x)
    let ?s1 = "step (Work i) s"
    from run_to_idle[OF inv i W_Run] free
    have p: "workers ?s1 ! i = W_Idle" "queue_mutex ?s1 = None" by simp_all
    have i1: "i < length (workers ?s1)" using i by (simp only: length_workers_step)
    from finish_worker_idle[OF invariant_step[OF inv] stop_mono_step[OF st] p(2) i1] p(1)
    obtain es where es: "Dtor \<notin> set es" "workers (exec es ?s1) ! i = W_Terminated"
      "queue_mutex (exec es ?s1) = None" by blast
    then have "Dtor \<notin> set (Work i # es) \<and>
        workers (exec (Work i # es) s) ! i = W_Terminated \<and>
        queue_mutex (exec (Work i # es) s) = None"
      by simp
    then show ?thesis by blast
  qed
qed

lemma finish_all:
  "invariant s \<Longrightarrow> stop s \<Longrightarrow> queue_mutex s = None \<Longrightarrow> k \<le> length (workers s) \<Longrightarrow>
   \<exists>es. Dtor \<notin> set es \<and> (\<forall>j<k. workers (exec es s) ! j = W_Terminated) \<and>
        queue_mutex (exec es s) = None"
proof (induction k)
  case 0
  then have "Dtor \<notin> set ([] :: 'a event list) \<and>
      (\<forall>j<0. workers (exec [] s) ! j = W_Terminated) \<and> queue_mutex (exec [] s) = None"
    by simp
  then show ?case by blast
next
  case (Suc k)
  from Suc.IH[OF Suc.prems(1,2,3)] Suc.prems(4)
  obtain es1 where es1: "Dtor \<notin> set es1" "\<forall>j<k. workers (exec es1 s) ! j = W_Terminated"
    "queue_mutex (exec es1 s) = None" by auto
  let ?s1 = "exec es1 s"
  have len: "length (workers ?s1) = length (workers s)" by (rule length_workers_exec)
  have k: "k < length (workers ?s1)" using Suc.prems(4) len by simp
  from finish_worker[OF invariant_exec[OF Suc.prems(1)] stop_mono_exec[OF Suc.prems(2)] es1(3) k]
  obtain es2 where es2: "Dtor \<notin> set es2" "workers (exec es2 ?s1) ! k = W_Terminated"
    "queue_mutex (exec es2 ?s1) = None" by blast
  have "workers (exec es2 ?s1) ! j = W_Terminated" if "j < Suc k" for j
  proof (cases "j = k")
    case True
    with es2(2) show ?thesis by simp
  next
    case False
    with that have jk: "j < k" by simp
    then have "j < length (workers ?s1)" using k by simp
    moreover have "workers ?s1 ! j = W_Terminated" using es1(2) jk by simp
    ultimately show ?thesis by (rule terminated_stable_exec)
  qed
  then have "Dtor \<notin> set (es1 @ es2) \<and>
      (\<forall>j<Suc k. workers (exec (es1 @ es2) s) ! j = W_Terminated) \<and>
      queue_mutex (exec (es1 @ es2) s) = None"
    using es1(1) es2(1,3) by (simp add: exec_append)
  then show ?case by blast
qed

lemma join_all:
  "\<forall>j<length (workers s). workers s ! j = W_Terminated \<Longrightarrow> dtor s = D_Join k \<Longrightarrow>
   \<exists>es. dtor (exec es s) = D_Returned"
proof (induction m \<equiv> "length (workers s) - k" arbitrary: k s)
  case 0
  then have "\<not> k < length (workers s)" by simp
  with 0(3) have "dtor (exec [Dtor] s) = D_Returned"
    by (simp add: dtor_step_def)
  then show ?case by blast
next
  case (Suc m)
  then have k: "k < length (workers s)" by simp
  let ?s1 = "step Dtor s"
  have e: "dtor_step s = s\<lparr>dtor := D_Join (Suc k)\<rparr>"
    using k Suc.prems by (simp add: dtor_step_def)
  have "m = length (workers ?s1) - Suc k" using Suc(2) by (simp add: e)
  moreover have "\<forall>j<length (workers ?s1). workers ?s1 ! j = W_Terminated"
    using Suc.prems(1) by (simp add: e)
  moreover have "dtor ?s1 = D_Join (Suc k)" by (simp add: e)
  ultimately obtain es where "dtor (exec es ?s1) = D_Returned"
    using Suc(1) by blast
  then have "dtor (exec (Dtor # es) s) = D_Returned" by simp
  then show ?case by blast
qed

text \<open>Every schedule can be continued to one in which the destructor returns.\<close>

lemma can_complete:
  assumes inv: "invariant s"
  shows "\<exists>es. dtor (exec es s) = D_Returned"
proof -
  from free_mutex[OF inv] obtain e1 where e1: "queue_mutex (exec e1 s) = None" by blast
  let ?s1 = "exec e1 s"
  have inv1: "invariant ?s1" using inv by (rule invariant_exec)
  from raise_stop[OF inv1 e1] obtain e2 where e2: "stop (exec e2 ?s1)"
    "queue_mutex (exec e2 ?s1) = None"
    "(\<exists>k. dtor (exec e2 ?s1) = D_Join k) \<or> dtor (exec e2 ?s1) = D_Returned" by blast
  let ?s2 = "exec e2 ?s1"
  have inv2: "invariant ?s2" using inv1 by (rule invariant_exec)
  from finish_all[OF inv2 e2(1,2) order_refl] obtain e3 where e3: "Dtor \<notin> set e3"
    "\<forall>j<length (workers ?s2). workers (exec e3 ?s2) ! j = W_Terminated" by blast
  let ?s3 = "exec e3 ?s2"
  have all: "\<forall>j<length (workers ?s3). workers ?s3 ! j = W_Terminated"
    using e3(2) by (simp only: length_workers_exec)
  have d3: "dtor ?s3 = dtor ?s2" using e3(1) by (rule dtor_stable_exec)
  from e2(3) have "\<exists>e4. dtor (exec e4 ?s3) = D_Returned"
  proof
    assume "\<exists>k. dtor ?s2 = D_Join k"
    then obtain k where "dtor ?s3 = D_Join k" using d3 by auto
    from join_all[OF all this] show ?thesis .
  next
    assume "dtor ?s2 = D_Returned"
    then have "dtor (exec [] ?s3) = D_Returned" using d3 by simp
    then show ?thesis by blast
  qed
  then obtain e4 where "dtor (exec e4 ?s3) = D_Returned" by blast
  then have "dtor (exec (e1 @ e2 @ e3 @ e4) s) = D_Returned"
    by (simp add: exec_append)
  then show ?thesis by blast
qed

lemma reachable_can_complete:
  "\<exists>rest. dtor (exec (evs @ rest) (ThreadPool n)) = D_Returned"
  using can_complete[OF reachable_invariant, of evs n] by (simp add: exec_append)

section \<open>The claims\<close>

text \<open>
  C1 (drain on shutdown). For a pool built with at least one worker: every schedule can be
  continued so that the destructor returns; and in every state of every schedule in which
  the destructor has returned, the stop flag is set, the queue is empty, every worker has
  terminated, the items invoked are exactly the items whose \<^verbatim>\<open>emplace\<close> happened (as
  multisets, so there are as many invocations as successful submits), and the future of
  each of them holds the outcome of its callable.
\<close>

theorem drain_on_shutdown:
  fixes evs :: "'a event list" and n :: nat
  defines "s \<equiv> exec evs (ThreadPool n)"
  assumes "1 \<le> n"
  shows "(\<exists>rest. dtor (exec (evs @ rest) (ThreadPool n)) = D_Returned) \<and>
         (dtor s = D_Returned \<longrightarrow>
            stop s \<and> tasks s = [] \<and> length (workers s) = n \<and>
            (\<forall>w\<in>set (workers s). w = W_Terminated) \<and>
            mset (run_log s) = mset (enq_log s) \<and>
            (\<forall>h\<in>set (enq_log s). futures s ! h = outcome (packaged s ! h)))"
proof -
  have inv: "invariant s" unfolding s_def by (rule reachable_invariant)
  have len: "length (workers s) = n" unfolding s_def by (rule length_workers_reachable)
  have "stop s \<and> tasks s = [] \<and> length (workers s) = n \<and>
            (\<forall>w\<in>set (workers s). w = W_Terminated) \<and>
            mset (run_log s) = mset (enq_log s) \<and>
            (\<forall>h\<in>set (enq_log s). futures s ! h = outcome (packaged s ! h))"
    if d: "dtor s = D_Returned"
  proof -
    have dr: "stop s \<and> tasks s = [] \<and> (\<forall>w\<in>set (workers s). w = W_Terminated) \<and>
         mset (run_log s) = mset (enq_log s)"
      using drained[OF assms(2), of evs] d unfolding s_def by simp
    have "\<forall>h\<in>set (enq_log s). futures s ! h = outcome (packaged s ! h)"
    proof
      fix h assume h: "h \<in> set (enq_log s)"
      then have "h \<in> set (run_log s)" using dr by (metis mset_eq_setD)
      moreover have "h < length (futures s)" using inv h by (simp add: invariant_def ids_ok_def)
      ultimately show "futures s ! h = outcome (packaged s ! h)"
        using inv by (simp add: invariant_def fut_ok_def)
    qed
    with dr len show ?thesis by simp
  qed
  with reachable_can_complete[of evs n] show ?thesis by blast
qed

theorem drain_on_shutdown_witness:
  "(1::nat) \<le> 1 \<and> dtor (exec run_one (ThreadPool 1)) = D_Returned \<and>
   tasks (exec run_one (ThreadPool 1)) = [] \<and>
   mset (run_log (exec run_one (ThreadPool 1))) = mset (enq_log (exec run_one (ThreadPool 1))) \<and>
   enq_log (exec run_one (ThreadPool 1)) = [0]"
proof -
  have d: "dtor (exec run_one (ThreadPool 1)) = D_Returned"
    by (simp add: run_one_def step_defs)
  have e: "enq_log (exec run_one (ThreadPool 1)) = [0]"
    by (simp add: run_one_def step_defs)
  from drain_on_shutdown[where n=1 and evs=run_one] d e show ?thesis by simp
qed

text \<open>
  C2 (no enqueue after shutdown). Let \<open>s\<close> be a pool whose stop flag is set and let a caller
  start \<^verbatim>\<open>enqueue\<close> there; \<open>h\<close> is the call. However the schedule continues, the call is
  before the lock, at the test, or has thrown \<^verbatim>\<open>"enqueue on stopped ThreadPool"\<close>; it never
  reaches \<^verbatim>\<open>emplace\<close>. No step of the call changes the queue, the step at the test throws,
  and the log of placed items stays what it was. Run alone from a free mutex, the call
  ends with the exception and the queue it found.
\<close>

theorem no_enqueue_after_shutdown:
  fixes s :: "'a pool" and c :: "'a callable" and evs :: "'a event list"
  defines "h \<equiv> length (calls s)"
  defines "s' \<equiv> exec evs (step (Submit c) s)"
  assumes "stop s"
  shows "rejected h s' \<and> enq_log s' = enq_log s \<and>
         tasks (step (Submit c) s) = tasks s \<and>
         (of_call h e \<longrightarrow> tasks (step e s') = tasks s') \<and>
         (calls s' ! h = E_Crit \<longrightarrow>
            calls (step (Enq h) s') ! h = E_Thrown ''enqueue on stopped ThreadPool'') \<and>
         (queue_mutex s = None \<longrightarrow>
            calls (exec [Submit c, Enq h, Enq h] s) ! h =
              E_Thrown ''enqueue on stopped ThreadPool'' \<and>
            tasks (exec [Submit c, Enq h, Enq h] s) = tasks s)"
proof -
  have st: "stop (step (Submit c) s)" using assms(3) by (rule stop_mono_step)
  then have st': "stop s'" unfolding s'_def by (rule stop_mono_exec)
  have "rejected h (step (Submit c) s)"
    by (simp add: rejected_def submit_def h_def)
  then have r: "rejected h s'" unfolding s'_def using st by (simp add: rejected_exec)
  have l: "enq_log s' = enq_log s"
    unfolding s'_def using st assms(3)
    by (simp add: stopped_enq_log_exec) (simp add: submit_def)
  have t: "of_call h e \<longrightarrow> tasks (step e s') = tasks s'"
    using st' by (simp add: stopped_call_tasks)
  have x: "calls s' ! h = E_Crit \<longrightarrow>
      calls (step (Enq h) s') ! h = E_Thrown ''enqueue on stopped ThreadPool''"
    using st' r by (simp add: rejected_def enqueue_step_def)
  have q: "queue_mutex s = None \<longrightarrow>
      calls (exec [Submit c, Enq h, Enq h] s) ! h = E_Thrown ''enqueue on stopped ThreadPool'' \<and>
      tasks (exec [Submit c, Enq h, Enq h] s) = tasks s"
    using assms(3) by (simp add: submit_def enqueue_step_def h_def)
  from r l t x q show ?thesis by (simp add: submit_def)
qed

theorem no_enqueue_after_shutdown_witness:
  "stop (exec [Dtor, Dtor] (ThreadPool 2 :: nat pool)) \<and>
   calls (exec [Submit (Returns 3), Enq 0, Enq 0] (exec [Dtor, Dtor] (ThreadPool 2 :: nat pool))) ! 0 =
     E_Thrown ''enqueue on stopped ThreadPool'' \<and>
   tasks (exec [Submit (Returns 3), Enq 0, Enq 0] (exec [Dtor, Dtor] (ThreadPool 2 :: nat pool))) = [] \<and>
   rejected 0 (exec [Enq 0, Dtor, Work 0] (step (Submit (Returns 3)) (exec [Dtor, Dtor] (ThreadPool 2 :: nat pool))))"
proof -
  have h: "stop (exec [Dtor, Dtor] (ThreadPool 2 :: nat pool))"
    by (simp add: step_defs)
  have c: "length (calls (exec [Dtor, Dtor] (ThreadPool 2 :: nat pool))) = 0"
    by (simp add: step_defs)
  have m: "queue_mutex (exec [Dtor, Dtor] (ThreadPool 2 :: nat pool)) = None"
    by (simp add: step_defs)
  have t: "tasks (exec [Dtor, Dtor] (ThreadPool 2 :: nat pool)) = []"
    by (simp add: step_defs)
  from no_enqueue_after_shutdown[OF h, of "[Enq 0, Dtor, Work 0]" "Returns 3" "Enq 0"] h m t
  show ?thesis unfolding c by simp
qed

text \<open>
  C3 (dequeue or wait). Let worker \<open>i\<close> have completed its wait (it is at the test of line
  97) in a reachable state. If the stop flag is set and the queue is empty, its step
  terminates it and pops nothing. Otherwise the queue is not empty, the step removes
  exactly its head, the worker holds that item, and whatever the other threads do in
  between, the worker's next step invokes that item.
\<close>

theorem dequeue_or_wait:
  fixes evs rest :: "'a event list" and n i :: nat
  defines "s \<equiv> exec evs (ThreadPool n)"
  defines "s' \<equiv> step (Work i) s"
  assumes "i < n" and "workers s ! i = W_Check"
  shows "(stop s \<and> tasks s = [] \<longrightarrow>
            workers s' ! i = W_Terminated \<and> tasks s' = [] \<and> deq_log s' = deq_log s \<and>
            run_log s' = run_log s) \<and>
         (\<not> (stop s \<and> tasks s = []) \<longrightarrow>
            tasks s \<noteq> [] \<and> tasks s' = tl (tasks s) \<and>
            deq_log s' = deq_log s @ [hd (tasks s)] \<and>
            workers s' ! i = W_Run (hd (tasks s)) \<and>
            (Work i \<notin> set rest \<longrightarrow>
               workers (exec rest s') ! i = W_Run (hd (tasks s)) \<and>
               run_log (step (Work i) (exec rest s')) =
                 run_log (exec rest s') @ [hd (tasks s)]))"
proof -
  have inv: "invariant s" unfolding s_def by (rule reachable_invariant)
  have len: "length (workers s) = n" unfolding s_def by (rule length_workers_reachable)
  with assms(3) have i: "i < length (workers s)" by simp
  have "in_critical (Worker i) s" using i assms(4) by simp
  moreover have "mutex_ok s" using inv by (simp add: invariant_def)
  ultimately have mx: "queue_mutex s = Some (Worker i)"
    using mutex_okD[of s "Worker i"] by blast
  have pred: "stop s \<or> tasks s \<noteq> []"
    using inv i mx assms(4) by (simp add: invariant_def check_ok_def)
  have a: "stop s \<and> tasks s = [] \<longrightarrow>
            workers s' ! i = W_Terminated \<and> tasks s' = [] \<and> deq_log s' = deq_log s \<and>
            run_log s' = run_log s"
    using i assms(4) by (simp add: s'_def worker_step_def)
  have b: "tasks s \<noteq> [] \<and> tasks s' = tl (tasks s) \<and>
            deq_log s' = deq_log s @ [hd (tasks s)] \<and>
            workers s' ! i = W_Run (hd (tasks s)) \<and>
            (Work i \<notin> set rest \<longrightarrow>
               workers (exec rest s') ! i = W_Run (hd (tasks s)) \<and>
               run_log (step (Work i) (exec rest s')) =
                 run_log (exec rest s') @ [hd (tasks s)])"
    if ne: "\<not> (stop s \<and> tasks s = [])"
  proof -
    from ne pred obtain x q where t: "tasks s = x # q" by (cases "tasks s") auto
    have p: "tasks s' = q" "deq_log s' = deq_log s @ [x]" "workers s' ! i = W_Run x"
      using i assms(4) t by (simp_all add: s'_def worker_step_def)
    have i': "i < length (workers s')"
      using i length_workers_step[of "Work i" s] by (simp add: s'_def)
    have c: "workers (exec rest s') ! i = W_Run x \<and>
        run_log (step (Work i) (exec rest s')) = run_log (exec rest s') @ [x]"
      if r: "Work i \<notin> set rest"
    proof -
      have w: "workers (exec rest s') ! i = W_Run x"
        using others_keep_run_exec[OF r i' p(3)] .
      have "invariant (exec rest s')"
        unfolding s'_def by (rule invariant_exec[OF invariant_step[OF inv]])
      then have v: "fifo_ok (exec rest s')" "flight_ok (exec rest s')" "ids_ok (exec rest s')"
        "fut_ok (exec rest s')"
        by (simp_all add: invariant_def)
      have "i < length (workers (exec rest s'))" using i' by (simp add: length_workers_exec)
      from worker_step_run[OF v this w] w show ?thesis by simp
    qed
    from t p c show ?thesis by simp
  qed
  from a b show ?thesis by blast
qed

theorem dequeue_or_wait_witness:
  "workers (exec to_check (ThreadPool 2)) ! 1 = W_Check \<and>
   tasks (exec to_check (ThreadPool 2)) = [0] \<and>
   tasks (step (Work 1) (exec to_check (ThreadPool 2))) = [] \<and>
   run_log (step (Work 1) (exec [Work 0, Notify 0 None]
      (step (Work 1) (exec to_check (ThreadPool 2))))) = [0] \<and>
   workers (exec to_exit (ThreadPool 1)) ! 0 = W_Check \<and>
   stop (exec to_exit (ThreadPool 1)) \<and> tasks (exec to_exit (ThreadPool 1)) = [] \<and>
   workers (step (Work 0) (exec to_exit (ThreadPool 1))) ! 0 = W_Terminated"
proof -
  have w: "workers (exec to_check (ThreadPool 2)) ! 1 = W_Check"
    by (simp add: to_check_def step_defs)
  have t: "tasks (exec to_check (ThreadPool 2)) = [0]"
    by (simp add: to_check_def step_defs)
  have r: "run_log (exec [Work 0, Notify 0 None] (step (Work 1)
      (exec to_check (ThreadPool 2)))) = []"
    by (simp add: to_check_def step_defs)
  have n: "Work 1 \<notin> set [Work 0, Notify 0 None :: nat event]" by simp
  from dequeue_or_wait[where n=2 and i=1 and evs=to_check
      and rest="[Work 0, Notify 0 None]", OF _ w] t r n
  have a: "tasks (step (Work 1) (exec to_check (ThreadPool 2))) = [] \<and>
   run_log (step (Work 1) (exec [Work 0, Notify 0 None]
      (step (Work 1) (exec to_check (ThreadPool 2))))) = [0]"
    by simp
  have x: "workers (exec to_exit (ThreadPool 1)) ! 0 = W_Check"
    "stop (exec to_exit (ThreadPool 1))" "tasks (exec to_exit (ThreadPool 1)) = []"
    by (simp_all add: to_exit_def step_defs)
  from dequeue_or_wait[where n=1 and i=0 and evs=to_exit, OF _ x(1)] x(2,3)
  have b: "workers (step (Work 0) (exec to_exit (ThreadPool 1))) ! 0 = W_Terminated"
    by simp
  from w t a x b show ?thesis by blast
qed

text \<open>
  C4 (FIFO). In every reachable state the items popped so far, followed by the queue, are
  the items in the order their \<^verbatim>\<open>emplace\<close> happened. With exactly one worker the items
  invoked so far, the item the worker holds and the queue are that order too, and once
  the destructor has returned the order of invocation is the order of submission.
\<close>

theorem fifo_order:
  fixes evs :: "'a event list" and n :: nat
  defines "s \<equiv> exec evs (ThreadPool n)"
  shows "enq_log s = deq_log s @ tasks s \<and>
         (n = 1 \<longrightarrow> enq_log s = run_log s @ inflight (workers s) @ tasks s \<and>
                    (dtor s = D_Returned \<longrightarrow> run_log s = enq_log s))"
proof -
  have inv: "invariant s" unfolding s_def by (rule reachable_invariant)
  have len: "length (workers s) = n" unfolding s_def by (rule length_workers_reachable)
  have f: "enq_log s = deq_log s @ tasks s"
    using inv by (simp add: invariant_def fifo_ok_def)
  have "enq_log s = run_log s @ inflight (workers s) @ tasks s \<and>
        (dtor s = D_Returned \<longrightarrow> run_log s = enq_log s)" if n: "n = 1"
  proof -
    have solo: "deq_log s = run_log s @ inflight (workers s)"
      using inv len n by (simp add: invariant_def solo_ok_def)
    have "run_log s = enq_log s" if d: "dtor s = D_Returned"
    proof -
      from inv d have all: "\<forall>i<length (workers s). workers s ! i = W_Terminated"
        by (simp add: invariant_def join_ok_def)
      then have allt: "\<forall>w\<in>set (workers s). w = W_Terminated"
        by (auto simp: in_set_conv_nth)
      have "0 < length (workers s)" using len n by simp
      then have "workers s ! 0 \<in> set (workers s)" by (rule nth_mem)
      with allt have "W_Terminated \<in> set (workers s)" by auto
      with inv have "tasks s = []" by (simp add: invariant_def drain_ok_def)
      with f solo inflight_terminated[OF allt] show ?thesis by simp
    qed
    with f solo show ?thesis by simp
  qed
  with f show ?thesis by blast
qed

theorem fifo_order_witness:
  "enq_log (exec run_two (ThreadPool 1)) = [1, 0] \<and>
   deq_log (exec run_two (ThreadPool 1)) = [1] \<and> tasks (exec run_two (ThreadPool 1)) = [0] \<and>
   run_log (exec (run_two @ rest_two) (ThreadPool 1)) = [1, 0] \<and>
   dtor (exec (run_two @ rest_two) (ThreadPool 1)) = D_Returned"
proof -
  have a: "enq_log (exec run_two (ThreadPool 1)) = [1, 0]"
    by (simp add: run_two_def step_defs)
  have t: "tasks (exec run_two (ThreadPool 1)) = [0]"
    by (simp add: run_two_def step_defs)
  have e: "enq_log (exec (run_two @ rest_two) (ThreadPool 1)) = [1, 0]"
    by (simp add: run_two_def rest_two_def step_defs)
  have d: "dtor (exec (run_two @ rest_two) (ThreadPool 1)) = D_Returned"
    by (simp add: run_two_def rest_two_def step_defs)
  from fifo_order[where n=1 and evs=run_two] fifo_order[where n=1 and evs="run_two @ rest_two"]
    a t e d
  show ?thesis by simp
qed

text \<open>
  C5 (failure capture and isolation). In every reachable state no worker has crashed; the
  future of every item is pending until the item has been invoked and then holds the
  outcome of its own callable, so \<^verbatim>\<open>get\<close> on the future of an invoked item returns the value
  of a callable that returned and rethrows the exception of one that threw. A worker that
  invokes a throwing callable stores the exception in that item's future, leaves every
  other future as it is, and is back at the top of its loop.
\<close>

theorem failure_capture:
  fixes evs :: "'a event list" and n :: nat
  defines "s \<equiv> exec evs (ThreadPool n)"
  shows "W_Crashed \<notin> set (workers s) \<and> W_Undefined \<notin> set (workers s) \<and>
         (\<forall>h<length (futures s).
            futures s ! h = (if h \<in> set (run_log s) then outcome (packaged s ! h) else Pending)) \<and>
         (\<forall>h\<in>set (run_log s).
            await (futures s ! h) =
              Some (case packaged s ! h of Returns v \<Rightarrow> Inr v | Throws m \<Rightarrow> Inl (TaskFailure m))) \<and>
         (i < n \<and> workers s ! i = W_Run h \<and> packaged s ! h = Throws m \<longrightarrow>
            workers (step (Work i) s) ! i = W_Idle \<and>
            futures (step (Work i) s) ! h = Failed m \<and>
            (\<forall>k. k \<noteq> h \<longrightarrow> futures (step (Work i) s) ! k = futures s ! k))"
proof -
  have inv: "invariant s" unfolding s_def by (rule reachable_invariant)
  have len: "length (workers s) = n" unfolding s_def by (rule length_workers_reachable)
  have v: "fifo_ok s" "flight_ok s" "ids_ok s" "fut_ok s"
    using inv by (simp_all add: invariant_def)
  have a: "W_Crashed \<notin> set (workers s) \<and> W_Undefined \<notin> set (workers s)"
    using inv by (simp add: invariant_def safe_ok_def)
  have b: "\<forall>h<length (futures s).
            futures s ! h = (if h \<in> set (run_log s) then outcome (packaged s ! h) else Pending)"
    using v(4) by (simp add: fut_ok_def)
  have c: "\<forall>h\<in>set (run_log s).
            await (futures s ! h) =
              Some (case packaged s ! h of Returns v \<Rightarrow> Inr v | Throws m \<Rightarrow> Inl (TaskFailure m))"
  proof
    fix x assume x: "x \<in> set (run_log s)"
    then have "x \<in> set (enq_log s)" using run_log_subset[OF v(1,2)] by blast
    then have "x < length (futures s)" using v(3) by (simp add: ids_ok_def)
    with b x have "futures s ! x = outcome (packaged s ! x)" by simp
    then show "await (futures s ! x) =
              Some (case packaged s ! x of Returns v \<Rightarrow> Inr v | Throws m \<Rightarrow> Inl (TaskFailure m))"
      by (cases "packaged s ! x") simp_all
  qed
  have d: "workers (step (Work i) s) ! i = W_Idle \<and>
            futures (step (Work i) s) ! h = Failed m \<and>
            (\<forall>k. k \<noteq> h \<longrightarrow> futures (step (Work i) s) ! k = futures s ! k)"
    if "i < n \<and> workers s ! i = W_Run h \<and> packaged s ! h = Throws m"
  proof -
    from that len have i: "i < length (workers s)" and r: "workers s ! i = W_Run h"
      and p: "packaged s ! h = Throws m" by simp_all
    from held_not_run[OF v(1,2,3) i r] v(3) have "h < length (futures s)"
      by (simp add: ids_ok_def)
    then show ?thesis
      using i p by (simp add: worker_step_run[OF v i r])
  qed
  from a b c d show ?thesis by blast
qed

theorem failure_capture_witness:
  "workers (exec boom_seven (ThreadPool 2)) ! 0 = W_Run 0 \<and>
   packaged (exec boom_seven (ThreadPool 2)) ! 0 = Throws ''boom'' \<and>
   workers (step (Work 0) (exec boom_seven (ThreadPool 2))) ! 0 = W_Idle \<and>
   futures (step (Work 0) (exec boom_seven (ThreadPool 2))) ! 0 = Failed ''boom'' \<and>
   run_log (exec (boom_seven @ [Work 0, Work 1]) (ThreadPool 2)) = [0, 1] \<and>
   await (futures (exec (boom_seven @ [Work 0, Work 1]) (ThreadPool 2)) ! 0) = Some (Inl (TaskFailure ''boom'')) \<and>
   await (futures (exec (boom_seven @ [Work 0, Work 1]) (ThreadPool 2)) ! 1) = Some (Inr 7)"
proof -
  have w: "workers (exec boom_seven (ThreadPool 2)) ! 0 = W_Run 0"
    by (simp add: boom_seven_def step_defs)
  have p: "packaged (exec boom_seven (ThreadPool 2)) ! 0 = Throws ''boom''"
    by (simp add: boom_seven_def step_defs)
  have r: "run_log (exec (boom_seven @ [Work 0, Work 1]) (ThreadPool 2)) = [0, 1]"
    by (simp add: boom_seven_def step_defs)
  have q: "packaged (exec (boom_seven @ [Work 0, Work 1]) (ThreadPool 2)) = [Throws ''boom'', Returns 7]"
    by (simp add: boom_seven_def step_defs)
  from failure_capture[where n=2 and evs=boom_seven and i=0 and h=0 and m="''boom''"] w p
  have a: "workers (step (Work 0) (exec boom_seven (ThreadPool 2))) ! 0 = W_Idle \<and>
   futures (step (Work 0) (exec boom_seven (ThreadPool 2))) ! 0 = Failed ''boom''"
    by simp
  from failure_capture[where n=2 and evs="boom_seven @ [Work 0, Work 1]"] r q
  have b: "await (futures (exec (boom_seven @ [Work 0, Work 1]) (ThreadPool 2)) ! 0) = Some (Inl (TaskFailure ''boom'')) \<and>
   await (futures (exec (boom_seven @ [Work 0, Work 1]) (ThreadPool 2)) ! 1) = Some (Inr 7)"
    by simp
  from w p r a b show ?thesis by blast
qed

text \<open>
  C6 (lock discipline). In every reachable state a step that invokes a callable is the step
  of a worker that holds an item and does not hold the mutex; a worker that holds an item
  never holds the mutex; and no step of a call of \<^verbatim>\<open>enqueue\<close> invokes a callable.
\<close>

theorem lock_discipline:
  fixes evs :: "'a event list" and n :: nat and e :: "'a event"
  defines "s \<equiv> exec evs (ThreadPool n)"
  shows "(run_log (step e s) \<noteq> run_log s \<longrightarrow>
            (\<exists>i h. e = Work i \<and> i < n \<and> workers s ! i = W_Run h \<and>
                   queue_mutex s \<noteq> Some (Worker i) \<and>
                   run_log (step e s) = run_log s @ [h])) \<and>
         (i < n \<and> workers s ! i = W_Run h \<longrightarrow> queue_mutex s \<noteq> Some (Worker i)) \<and>
         ((\<exists>c. e = Submit c) \<or> of_call k e \<longrightarrow> run_log (step e s) = run_log s)"
proof -
  have inv: "invariant s" unfolding s_def by (rule reachable_invariant)
  have len: "length (workers s) = n" unfolding s_def by (rule length_workers_reachable)
  have mx: "mutex_ok s" using inv by (simp add: invariant_def)
  have b: "queue_mutex s \<noteq> Some (Worker j)" if "j < n" "workers s ! j = W_Run x" for j x
    using mutex_okD[OF mx, of "Worker j"] that by auto
  have a: "\<exists>i h. e = Work i \<and> i < n \<and> workers s ! i = W_Run h \<and>
                   queue_mutex s \<noteq> Some (Worker i) \<and>
                   run_log (step e s) = run_log s @ [h]"
    if "run_log (step e s) \<noteq> run_log s"
  proof -
    from run_log_step_cases[OF that] obtain j x where
      "e = Work j" "j < length (workers s)" "workers s ! j = W_Run x"
      "run_log (step e s) = run_log s @ [x]" by blast
    with b[of j x] len show ?thesis by blast
  qed
  have c: "run_log (step e s) = run_log s" if "(\<exists>c. e = Submit c) \<or> of_call k e"
    using that run_log_step_cases[of e s] by (cases e) auto
  from a b c show ?thesis by blast
qed

theorem lock_discipline_witness:
  "workers (exec boom_seven (ThreadPool 2)) ! 1 = W_Run 1 \<and>
   queue_mutex (exec boom_seven (ThreadPool 2)) \<noteq> Some (Worker 1) \<and>
   run_log (step (Work 1) (exec boom_seven (ThreadPool 2))) \<noteq> run_log (exec boom_seven (ThreadPool 2)) \<and>
   run_log (step (Enq 1) (exec boom_seven (ThreadPool 2))) = run_log (exec boom_seven (ThreadPool 2))"
proof -
  have w: "workers (exec boom_seven (ThreadPool 2)) ! 1 = W_Run 1"
    by (simp add: boom_seven_def step_defs)
  have r: "run_log (step (Work 1) (exec boom_seven (ThreadPool 2))) \<noteq>
      run_log (exec boom_seven (ThreadPool 2))"
    by (simp add: boom_seven_def step_defs)
  have o: "of_call 1 (Enq 1 :: nat event)" by simp
  from lock_discipline[where n=2 and evs=boom_seven and i=1 and h=1 and e="Enq 1" and k=1] w o
  have "queue_mutex (exec boom_seven (ThreadPool 2)) \<noteq> Some (Worker 1) \<and>
     run_log (step (Enq 1) (exec boom_seven (ThreadPool 2))) = run_log (exec boom_seven (ThreadPool 2))"
    by simp
  with w r show ?thesis by blast
qed

text \<open>
  C7 (stop is monotone). The stop flag is false at construction, and no step of any thread
  (a call of \<^verbatim>\<open>enqueue\<close>, a worker, the destructor) clears it once it is set: it stays set
  along every schedule.
\<close>

theorem stop_flag_monotone:
  "\<not> stop (ThreadPool n) \<and> (stop s \<longrightarrow> stop (step e s)) \<and> (stop s \<longrightarrow> stop (exec evs s))"
  by (simp add: stop_mono_step stop_mono_exec) (simp add: ThreadPool_def)

theorem stop_flag_monotone_witness:
  "stop (exec [Dtor, Dtor] (ThreadPool 2 :: nat pool)) \<and>
   stop (step (Work 0) (exec [Dtor, Dtor] (ThreadPool 2 :: nat pool))) \<and>
   stop (exec [Submit (Returns 5), Enq 0, Enq 0, Dtor, Work 1]
           (exec [Dtor, Dtor] (ThreadPool 2 :: nat pool)))"
proof -
  have h: "stop (exec [Dtor, Dtor] (ThreadPool 2 :: nat pool))"
    by (simp add: ThreadPool_def dtor_step_def)
  show ?thesis
    using h
      stop_flag_monotone[of 2 "exec [Dtor, Dtor] (ThreadPool 2 :: nat pool)" "Work 0"
        "[Submit (Returns 5), Enq 0, Enq 0, Dtor, Work 1]"]
    by blast
qed

text \<open>
  C8. The claim is that the callable of every successfully submitted task is invoked exactly
  once. A pool built with 0 workers accepts a task (the call of \<^verbatim>\<open>enqueue\<close> returns its
  future and the item is placed), its destructor returns, and the callable has not been
  invoked at all.
\<close>

theorem at_most_once_counterexample:
  "calls (exec zero_run (ThreadPool 0)) ! 0 = E_Returned \<and>
   enq_log (exec zero_run (ThreadPool 0)) = [0] \<and>
   dtor (exec zero_run (ThreadPool 0)) = D_Returned \<and>
   count_list (run_log (exec zero_run (ThreadPool 0))) 0 = 0 \<and>
   count_list (run_log (exec zero_run (ThreadPool 0))) 0 \<noteq> 1"
  by (simp add: zero_run_def step_defs)

text \<open>
  C8, as amended. In every reachable state every item placed on the queue is in exactly
  one place: invoked, held by one worker, or still on the queue; no item occurs twice in
  any of them, so no callable has been invoked more than once, and an item is off the queue
  before it is invoked. In a pool with at least one worker, by the time the destructor has
  returned, every placed item has been invoked exactly once.
\<close>

theorem at_most_once:
  fixes evs :: "'a event list" and n :: nat
  defines "s \<equiv> exec evs (ThreadPool n)"
  shows "distinct (run_log s @ inflight (workers s) @ tasks s) \<and>
         mset (enq_log s) = mset (run_log s @ inflight (workers s) @ tasks s) \<and>
         (\<forall>h\<in>set (enq_log s). count_list (run_log s) h \<le> 1) \<and>
         (1 \<le> n \<and> dtor s = D_Returned \<longrightarrow>
            (\<forall>h\<in>set (enq_log s). count_list (run_log s) h = 1))"
proof -
  have inv: "invariant s" unfolding s_def by (rule reachable_invariant)
  have len: "length (workers s) = n" unfolding s_def by (rule length_workers_reachable)
  have f: "enq_log s = deq_log s @ tasks s"
    using inv by (simp add: invariant_def fifo_ok_def)
  have g: "mset (deq_log s) = mset (run_log s) + mset (inflight (workers s))"
    using inv by (simp add: invariant_def flight_ok_def)
  have d: "distinct (enq_log s)"
    using inv by (simp add: invariant_def ids_ok_def)
  have m: "mset (enq_log s) = mset (run_log s @ inflight (workers s) @ tasks s)"
    using f g by simp
  have dd: "distinct (run_log s @ inflight (workers s) @ tasks s)"
    using d m by (metis mset_eq_imp_distinct_iff)
  then have dr: "distinct (run_log s)" by simp
  have le: "count_list (run_log s) h \<le> 1" for h
    using dr by (metis count_mset distinct_count_atmost_1 order_refl zero_le_one)
  have one: "\<forall>h\<in>set (enq_log s). count_list (run_log s) h = 1"
    if "1 \<le> n \<and> dtor s = D_Returned"
  proof
    fix h assume h: "h \<in> set (enq_log s)"
    from that have "mset (run_log s) = mset (enq_log s)"
      using drained[of n evs] unfolding s_def by blast
    then have "h \<in> set (run_log s)" using h by (metis mset_eq_setD)
    with dr show "count_list (run_log s) h = 1"
      by (metis count_mset distinct_count_atmost_1)
  qed
  from dd m le one show ?thesis by blast
qed

theorem at_most_once_witness:
  "enq_log (exec run_one (ThreadPool 1)) = [0] \<and> (1::nat) \<le> 1 \<and>
   dtor (exec run_one (ThreadPool 1)) = D_Returned \<and>
   count_list (run_log (exec run_one (ThreadPool 1))) 0 = 1"
proof -
  have d: "dtor (exec run_one (ThreadPool 1)) = D_Returned"
    by (simp add: run_one_def step_defs)
  have e: "enq_log (exec run_one (ThreadPool 1)) = [0]"
    by (simp add: run_one_def step_defs)
  from at_most_once[where n=1 and evs=run_one] d e show ?thesis by simp
qed

text \<open>
  C9. The claim is that constructing with a worker count of 0 signals InvalidArgument. The
  constructor has no such test: with 0 it returns a pool.
\<close>

theorem construct_zero_counterexample:
  "(construct 0 :: error + nat pool) \<noteq> Inl InvalidArgument"
  by (simp add: construct_def)

text \<open>
  C9, as amended. The constructor accepts every worker count and signals no error: it builds
  a pool with exactly that many workers, an empty queue and a cleared stop flag; for 0 the
  pool has no worker.
\<close>

theorem construct_accepts_every_count:
  "construct n = Inr (ThreadPool n) \<and> (\<forall>e. construct n \<noteq> (Inl e :: error + 'a pool)) \<and>
   length (workers (ThreadPool n)) = n \<and> tasks (ThreadPool n) = [] \<and>
   \<not> stop (ThreadPool n) \<and> workers (ThreadPool 0) = []"
  by (simp add: construct_def ThreadPool_def)

text \<open>
  C10 (frame of the queue operations). On a pool that is not stopped, the step of
  \<^verbatim>\<open>enqueue\<close> that places the item appends it at the tail of the queue and changes nothing
  else but the caller's own position and the mutex; the whole call, run from a free mutex,
  appends exactly its item, keeps the stop flag and the number of workers, and adds one
  packaged task and one pending future after the existing ones. A worker's pop removes
  exactly the head, hands it to that worker, and leaves the rest of the queue, the stop
  flag, the other workers and the futures as they were.
\<close>

theorem queue_frame:
  fixes s :: "'a pool" and c :: "'a callable" and h i :: nat and t :: "nat option"
  defines "k \<equiv> length (calls s)"
  defines "s1 \<equiv> step (Enq h) s"
  defines "s2 \<equiv> exec [Submit c, Enq k, Enq k, Notify k t] s"
  defines "s3 \<equiv> step (Work i) s"
  shows "(h < length (calls s) \<and> calls s ! h = E_Crit \<and> \<not> stop s \<longrightarrow>
            tasks s1 = tasks s @ [h] \<and> enq_log s1 = enq_log s @ [h] \<and>
            stop s1 = stop s \<and> workers s1 = workers s \<and> packaged s1 = packaged s \<and>
            futures s1 = futures s \<and> dtor s1 = dtor s \<and> deq_log s1 = deq_log s \<and>
            run_log s1 = run_log s) \<and>
         (queue_mutex s = None \<and> \<not> stop s \<longrightarrow>
            tasks s2 = tasks s @ [k] \<and> stop s2 = stop s \<and>
            length (workers s2) = length (workers s) \<and> packaged s2 = packaged s @ [c] \<and>
            futures s2 = futures s @ [Pending] \<and> dtor s2 = dtor s \<and>
            deq_log s2 = deq_log s \<and> run_log s2 = run_log s) \<and>
         (i < length (workers s) \<and> workers s ! i = W_Check \<and> tasks s = x # q \<longrightarrow>
            tasks s3 = q \<and> deq_log s3 = deq_log s @ [x] \<and> stop s3 = stop s \<and>
            workers s3 = (workers s)[i := W_Run x] \<and> enq_log s3 = enq_log s \<and>
            packaged s3 = packaged s \<and> futures s3 = futures s \<and> calls s3 = calls s \<and>
            dtor s3 = dtor s \<and> run_log s3 = run_log s)"
proof -
  have a: "h < length (calls s) \<and> calls s ! h = E_Crit \<and> \<not> stop s \<longrightarrow>
            tasks s1 = tasks s @ [h] \<and> enq_log s1 = enq_log s @ [h] \<and>
            stop s1 = stop s \<and> workers s1 = workers s \<and> packaged s1 = packaged s \<and>
            futures s1 = futures s \<and> dtor s1 = dtor s \<and> deq_log s1 = deq_log s \<and>
            run_log s1 = run_log s"
    by (simp add: s1_def enqueue_step_def)
  have b: "queue_mutex s = None \<and> \<not> stop s \<longrightarrow>
            tasks s2 = tasks s @ [k] \<and> stop s2 = stop s \<and>
            length (workers s2) = length (workers s) \<and> packaged s2 = packaged s @ [c] \<and>
            futures s2 = futures s @ [Pending] \<and> dtor s2 = dtor s \<and>
            deq_log s2 = deq_log s \<and> run_log s2 = run_log s"
    by (simp add: s2_def k_def submit_def enqueue_step_def notify_one_def split: option.splits)
  have c: "i < length (workers s) \<and> workers s ! i = W_Check \<and> tasks s = x # q \<longrightarrow>
            tasks s3 = q \<and> deq_log s3 = deq_log s @ [x] \<and> stop s3 = stop s \<and>
            workers s3 = (workers s)[i := W_Run x] \<and> enq_log s3 = enq_log s \<and>
            packaged s3 = packaged s \<and> futures s3 = futures s \<and> calls s3 = calls s \<and>
            dtor s3 = dtor s \<and> run_log s3 = run_log s"
    by (simp add: s3_def worker_step_def)
  from a b c show ?thesis by blast
qed

theorem queue_frame_witness:
  "calls (exec at_crit (ThreadPool 2)) ! 0 = E_Crit \<and>
   \<not> stop (exec at_crit (ThreadPool 2)) \<and>
   tasks (step (Enq 0) (exec at_crit (ThreadPool 2))) = [0] \<and>
   workers (step (Enq 0) (exec at_crit (ThreadPool 2))) = [W_Idle, W_Idle] \<and>
   tasks (exec [Submit (Returns 9), Enq 0, Enq 0, Notify 0 None] (ThreadPool 2 :: nat pool)) = [0] \<and>
   \<not> stop (exec [Submit (Returns 9), Enq 0, Enq 0, Notify 0 None] (ThreadPool 2 :: nat pool)) \<and>
   workers (exec to_check (ThreadPool 2)) ! 1 = W_Check \<and>
   tasks (exec to_check (ThreadPool 2)) = [0] \<and>
   tasks (step (Work 1) (exec to_check (ThreadPool 2))) = [] \<and>
   workers (step (Work 1) (exec to_check (ThreadPool 2))) = [W_Idle, W_Run 0]"
  (is "?A \<and> ?B \<and> ?C \<and> ?D \<and> ?E \<and> ?F \<and> ?G \<and> ?H \<and> ?I \<and> ?J")
proof -
  have a: "length (calls (exec at_crit (ThreadPool 2))) = 1" "?A" "?B"
    "tasks (exec at_crit (ThreadPool 2)) = []"
    "workers (exec at_crit (ThreadPool 2)) = [W_Idle, W_Idle]"
    by (simp_all add: at_crit_def step_defs numeral_2_eq_2)
  from queue_frame[where s="exec at_crit (ThreadPool 2)" and h=0] a
  have cd: "?C \<and> ?D" by simp
  have e: "queue_mutex (ThreadPool 2 :: nat pool) = None" "\<not> stop (ThreadPool 2 :: nat pool)"
    "length (calls (ThreadPool 2 :: nat pool)) = 0" "tasks (ThreadPool 2 :: nat pool) = []"
    by (simp_all add: step_defs)
  from queue_frame[where s="ThreadPool 2 :: nat pool" and c="Returns 9" and t=None] e
  have ef: "?E \<and> ?F" by simp
  have g: "length (workers (exec to_check (ThreadPool 2))) = 2" "?G" "?H"
    "workers (exec to_check (ThreadPool 2)) = [W_Idle, W_Check]"
    by (simp_all add: to_check_def step_defs numeral_2_eq_2)
  from queue_frame[where s="exec to_check (ThreadPool 2)" and i=1 and x=0 and q="[]"] g
  have ij: "?I \<and> ?J" by simp
  from a cd ef g ij show ?thesis by blast
qed

end
